theory Spec2Isabelle
  imports Main "HOL-Library.Word"
begin

section \<open>The allocator of mem_allocator.c\<close>

text \<open>
  The allocator keeps a singly linked chain of block headers inside the heap segment that
  \<^verbatim>\<open>sbrk\<close> grows and shrinks. The model is sequential (the global mutex serialises
  every call) and follows the C text on an explicit store:
  \<^item> addresses and \<^verbatim>\<open>size_t\<close> values are 64-bit words (LP64), so every sum and product
    wraps exactly as the C arithmetic does; \<^verbatim>\<open>NULL\<close> is the address 0;
  \<^item> memory is split into the header objects, read and written through
    \<^verbatim>\<open>header_t *\<close>, and the payload bytes, read and written through \<^verbatim>\<open>void *\<close>;
  \<^item> the two \<^verbatim>\<open>while\<close> loops are recursive functions into \<open>option\<close>, where
    \<open>None\<close> is a loop that never ends.

  The store has no mapped range: a header written at or above the break, or a
  \<^verbatim>\<open>memset\<close> that runs past the heap, succeeds in the model, where the process may
  fault. This only happens for requests whose \<^verbatim>\<open>sizeof(header_t) + size\<close> wraps around
  or exceeds the signed increment of \<^verbatim>\<open>sbrk\<close>. The lemmas on single steps of these
  definitions hold for every request; the properties of the allocator in which a new
  header is stored or a payload is filled are stated for requests that do not wrap, and
  on wrapped requests the code is only evaluated on concrete heaps, for the addresses
  and the break it computes.
\<close>

type_synonym size_t = "64 word"
type_synonym ptr = "64 word"
type_synonym byte = "8 word"

text \<open>\<^verbatim>\<open>union header { struct { size_t size; unsigned is_free; union header *next; } s; ALIGN stub; }\<close>\<close>

record header_t =
  s_size :: size_t
  s_is_free :: "32 word"
  s_next :: ptr

text \<open>
  \<^verbatim>\<open>sizeof(header_t)\<close> on LP64: 8 bytes of \<open>size\<close>, 4 of \<open>is_free\<close>, 4 of padding and 8
  of \<open>next\<close>; the 16-byte \<open>stub\<close> member is smaller than the struct and adds nothing.
\<close>

definition sizeof_header_t :: size_t where
  "sizeof_header_t = 24"

text \<open>
  The process-wide state: the globals \<open>head\<close> and \<open>tail\<close>, the store, and the data segment
  of the operating system (the program break and the highest break it will grant).
\<close>

record alloc_state =
  head :: ptr
  tail :: ptr
  hdr :: "ptr \<Rightarrow> header_t"
  mem :: "ptr \<Rightarrow> byte"
  brk :: ptr
  brk_limit :: ptr

subsection \<open>The library functions the allocator calls\<close>

text \<open>
  Modelled from the spec: \<^verbatim>\<open>sbrk\<close>, the heap boundary accessor of the operating system
  (not code of this repository). \<open>sbrk n\<close> moves the break by the signed increment \<open>n\<close>
  and returns the previous break; when the new break would leave the range the system
  grants, it returns \<open>(void * ) -1\<close> and changes nothing.
\<close>

definition sbrk :: "alloc_state \<Rightarrow> 64 word \<Rightarrow> ptr \<times> alloc_state" where
  "sbrk s increment =
     (let new = uint (brk s) + sint increment
      in if 0 \<le> new \<and> new \<le> uint (brk_limit s)
         then (brk s, s\<lparr>brk := word_of_int new\<rparr>)
         else (- 1, s))"

text \<open>
  Modelled from the C standard: \<^verbatim>\<open>memset(block, c, n)\<close> and
  \<^verbatim>\<open>memcpy(dst, src, n)\<close> on the payload bytes: the \<open>n\<close> bytes from the destination
  address on are overwritten, every other byte is left as it is. The payloads of two
  different blocks of a well-formed heap never overlap (\<open>blocks_disjoint\<close> below), so
  \<open>realloc\<close> calls \<^verbatim>\<open>memcpy\<close> within its contract.
\<close>

definition memset :: "(ptr \<Rightarrow> byte) \<Rightarrow> ptr \<Rightarrow> byte \<Rightarrow> size_t \<Rightarrow> (ptr \<Rightarrow> byte)" where
  "memset m block c n = (\<lambda>a. if a - block < n then c else m a)"

definition memcpy :: "(ptr \<Rightarrow> byte) \<Rightarrow> ptr \<Rightarrow> ptr \<Rightarrow> size_t \<Rightarrow> (ptr \<Rightarrow> byte)" where
  "memcpy m dst src n = (\<lambda>a. if a - dst < n then m (src + (a - dst)) else m a)"

subsection \<open>get_free_block\<close>

text \<open>
  \<^verbatim>\<open>curr = head; while (curr) { if (curr->s.is_free && curr->s.size >= size) return curr;
  curr = curr->s.next; } return NULL;\<close>
\<close>

partial_function (option) get_free_block_loop :: "(ptr \<Rightarrow> header_t) \<Rightarrow> size_t \<Rightarrow> ptr \<Rightarrow> ptr option" where
  "get_free_block_loop h sz cur =
     (if cur \<noteq> 0
      then (if s_is_free (h cur) \<noteq> 0 \<and> s_size (h cur) \<ge> sz
            then Some cur
            else get_free_block_loop h sz (s_next (h cur)))
      else Some 0)"

definition get_free_block :: "alloc_state \<Rightarrow> size_t \<Rightarrow> ptr option" where
  "get_free_block s sz = get_free_block_loop (hdr s) sz (head s)"

subsection \<open>free\<close>

text \<open>
  The tail repair of \<open>free\<close>:
  \<^verbatim>\<open>tmp = head; while (tmp) { if (tmp->s.next == tail) { tmp->s.next = NULL; tail = tmp; }
  tmp = tmp->s.next; }\<close>
\<close>

partial_function (option) free_loop :: "alloc_state \<Rightarrow> ptr \<Rightarrow> alloc_state option" where
  "free_loop s tmp =
     (if tmp \<noteq> 0
      then (let s' = (if s_next (hdr s tmp) = tail s
                      then s\<lparr>tail := tmp, hdr := (hdr s)(tmp := (hdr s tmp)\<lparr>s_next := 0\<rparr>)\<rparr>
                      else s)
            in free_loop s' (s_next (hdr s' tmp)))
      else Some s)"

definition free :: "alloc_state \<Rightarrow> ptr \<Rightarrow> alloc_state option" where
  "free s block =
     (if block = 0 then Some s
      else
        let header = block - sizeof_header_t;
            (programbreak, s0) = sbrk s 0
        in if block + s_size (hdr s0 header) = programbreak
           then (case (if head s0 = tail s0
                       then Some (s0\<lparr>head := 0, tail := 0\<rparr>)
                       else free_loop s0 (head s0)) of
                   None \<Rightarrow> None
                 | Some s1 \<Rightarrow>
                     Some (snd (sbrk s1 (0 - s_size (hdr s1 header) - sizeof_header_t))))
           else Some (s0\<lparr>hdr := (hdr s0)(header := (hdr s0 header)\<lparr>s_is_free := 1\<rparr>)\<rparr>))"

subsection \<open>malloc\<close>

definition malloc :: "alloc_state \<Rightarrow> size_t \<Rightarrow> (ptr \<times> alloc_state) option" where
  "malloc s sz =
     (if sz = 0 then Some (0, s)
      else
        case get_free_block s sz of
          None \<Rightarrow> None
        | Some header \<Rightarrow>
            if header \<noteq> 0
            then Some (header + sizeof_header_t,
                       s\<lparr>hdr := (hdr s)(header := (hdr s header)\<lparr>s_is_free := 0\<rparr>)\<rparr>)
            else
              let total_size = sizeof_header_t + sz;
                  (block, s1) = sbrk s total_size
              in if block = - 1 then Some (0, s1)
                 else
                   let header = block;
                       s2 = s1\<lparr>hdr := (hdr s1)(header :=
                                 \<lparr>s_size = sz, s_is_free = 0, s_next = 0\<rparr>)\<rparr>;
                       s3 = (if head s2 = 0 then s2\<lparr>head := header\<rparr> else s2);
                       s4 = (if tail s3 \<noteq> 0
                             then s3\<lparr>hdr := (hdr s3)(tail s3 :=
                                        (hdr s3 (tail s3))\<lparr>s_next := header\<rparr>)\<rparr>
                             else s3)
                   in Some (header + sizeof_header_t, s4\<lparr>tail := header\<rparr>))"

subsection \<open>calloc\<close>

definition calloc :: "alloc_state \<Rightarrow> size_t \<Rightarrow> size_t \<Rightarrow> (ptr \<times> alloc_state) option" where
  "calloc s num nsize =
     (if num = 0 \<or> nsize = 0 then Some (0, s)
      else
        let sz = num * nsize
        in if nsize \<noteq> sz div num then Some (0, s)
           else
             case malloc s sz of
               None \<Rightarrow> None
             | Some (block, s1) \<Rightarrow>
                 if block = 0 then Some (0, s1)
                 else Some (block, s1\<lparr>mem := memset (mem s1) block 0 sz\<rparr>))"

subsection \<open>realloc\<close>

definition realloc :: "alloc_state \<Rightarrow> ptr \<Rightarrow> size_t \<Rightarrow> (ptr \<times> alloc_state) option" where
  "realloc s block sz =
     (if block = 0 \<or> sz = 0 then malloc s sz
      else
        let header = block - sizeof_header_t
        in if s_size (hdr s header) \<ge> sz then Some (block, s)
           else
             case malloc s sz of
               None \<Rightarrow> None
             | Some (ret, s1) \<Rightarrow>
                 if ret \<noteq> 0
                 then (let s2 = s1\<lparr>mem := memcpy (mem s1) ret block (s_size (hdr s1 header))\<rparr>
                       in case free s2 block of
                            None \<Rightarrow> None
                          | Some s3 \<Rightarrow> Some (ret, s3))
                 else Some (ret, s1))"

section \<open>The chain as a list of header addresses\<close>

text \<open>
  \<open>chain h p ps\<close>: following the \<open>next\<close> links from \<open>p\<close> visits exactly the headers
  \<open>ps\<close> and then reaches \<^verbatim>\<open>NULL\<close>. \<open>fits h sz p\<close> is the test of the scan,
  \<^verbatim>\<open>curr->s.is_free && curr->s.size >= size\<close>.
\<close>

fun chain :: "(ptr \<Rightarrow> header_t) \<Rightarrow> ptr \<Rightarrow> ptr list \<Rightarrow> bool" where
  "chain h p [] = (p = 0)"
| "chain h p (q # qs) = (p = q \<and> p \<noteq> 0 \<and> chain h (s_next (h p)) qs)"

definition fits :: "(ptr \<Rightarrow> header_t) \<Rightarrow> size_t \<Rightarrow> ptr \<Rightarrow> bool" where
  "fits h sz p = (s_is_free (h p) \<noteq> 0 \<and> sz \<le> s_size (h p))"

definition first_fit :: "(ptr \<Rightarrow> header_t) \<Rightarrow> size_t \<Rightarrow> ptr list \<Rightarrow> ptr" where
  "first_fit h sz ps = (case find (fits h sz) ps of None \<Rightarrow> 0 | Some q \<Rightarrow> q)"

text \<open>
  \<open>tiles h a ps b\<close>: the blocks \<open>ps\<close> (header, then payload of the stored size) lie one
  after the other from address \<open>a\<close> to address \<open>b\<close>, without gap and without wrapping
  around, and none has size 0.
\<close>

fun tiles :: "(ptr \<Rightarrow> header_t) \<Rightarrow> int \<Rightarrow> ptr list \<Rightarrow> int \<Rightarrow> bool" where
  "tiles h a [] b = (a = b)"
| "tiles h a (p # ps) b =
     (uint p = a \<and> s_size (h p) \<noteq> 0 \<and>
      tiles h (a + uint sizeof_header_t + uint (s_size (h p))) ps b)"

text \<open>
  The invariants of the heap chain (section 3 of the specification): \<open>head\<close> starts
  a chain that ends at \<open>tail\<close>; chain order is address order, each block begins where
  its predecessor's payload ends, and the address after the last payload byte of the
  last block is the program break; the break is not \<^verbatim>\<open>NULL\<close> and the highest break
  the system grants lies in the lower half of the address space.
\<close>

definition heap_inv :: "alloc_state \<Rightarrow> ptr list \<Rightarrow> bool" where
  "heap_inv s ps \<longleftrightarrow>
     chain (hdr s) (head s) ps \<and>
     tail s = (if ps = [] then 0 else last ps) \<and>
     (ps \<noteq> [] \<longrightarrow> tiles (hdr s) (uint (hd ps)) ps (uint (brk s))) \<and>
     brk s \<noteq> 0 \<and> uint (brk s) \<le> uint (brk_limit s) \<and> uint (brk_limit s) < 2 ^ 63"

text \<open>
  Chain integrity as the specification words it: the headers reached from \<open>head\<close> form
  a list without repetition that ends in \<^verbatim>\<open>NULL\<close>, and \<open>tail\<close> is its last element
  (\<^verbatim>\<open>NULL\<close> for the empty chain).
\<close>

definition chain_integrity :: "alloc_state \<Rightarrow> bool" where
  "chain_integrity s \<longleftrightarrow>
     (\<exists>ps. chain (hdr s) (head s) ps \<and> distinct ps \<and>
           tail s = (if ps = [] then 0 else last ps))"

text \<open>
  The state \<open>malloc\<close> leaves when no block fits and \<^verbatim>\<open>sbrk\<close> grants the request: the
  break has moved by \<^verbatim>\<open>sizeof(header_t) + size\<close>, a new header stands at the old break
  and is linked behind the old tail.
\<close>

definition appended :: "alloc_state \<Rightarrow> size_t \<Rightarrow> alloc_state" where
  "appended s sz =
     s\<lparr>head := (if head s = 0 then brk s else head s),
       tail := brk s,
       hdr := (if tail s \<noteq> 0
               then ((hdr s)(brk s := \<lparr>s_size = sz, s_is_free = 0, s_next = 0\<rparr>))
                      (tail s := (((hdr s)(brk s := \<lparr>s_size = sz, s_is_free = 0, s_next = 0\<rparr>))
                                    (tail s))\<lparr>s_next := brk s\<rparr>)
               else (hdr s)(brk s := \<lparr>s_size = sz, s_is_free = 0, s_next = 0\<rparr>)),
       brk := brk s + (sizeof_header_t + sz)\<rparr>"

section \<open>Example heaps\<close>

text \<open>
  Concrete states on which the theorems are evaluated. \<open>empty_heap\<close> is the state at
  process start; \<open>one_block\<close> holds one live block of 100 bytes and \<open>two_blocks\<close> a
  second live block of 1 byte behind it (the states after \<^verbatim>\<open>malloc(100)\<close> and
  \<^verbatim>\<open>malloc(1)\<close>); \<open>first_freed\<close> is \<open>two_blocks\<close> after the first block was freed.
  In \<open>exhausted_heap\<close> and \<open>exhausted_block\<close> the break already is the highest break the
  system grants.
\<close>

definition no_header :: header_t where
  "no_header = \<lparr>s_size = 0, s_is_free = 0, s_next = 0\<rparr>"

definition empty_heap :: alloc_state where
  "empty_heap = \<lparr>head = 0, tail = 0, hdr = (\<lambda>_. no_header), mem = (\<lambda>_. 0),
                  brk = 0x1000, brk_limit = 0x2000\<rparr>"

definition exhausted_heap :: alloc_state where
  "exhausted_heap = \<lparr>head = 0, tail = 0, hdr = (\<lambda>_. no_header), mem = (\<lambda>_. 0),
                      brk = 0x1000, brk_limit = 0x1000\<rparr>"

definition one_block :: alloc_state where
  "one_block = \<lparr>head = 0x1000, tail = 0x1000,
       hdr = (\<lambda>_. no_header)(0x1000 := \<lparr>s_size = 100, s_is_free = 0, s_next = 0\<rparr>),
       mem = (\<lambda>_. 0), brk = 0x107C, brk_limit = 0x2000\<rparr>"

definition exhausted_block :: alloc_state where
  "exhausted_block = \<lparr>head = 0x1000, tail = 0x1000,
       hdr = (\<lambda>_. no_header)(0x1000 := \<lparr>s_size = 100, s_is_free = 0, s_next = 0\<rparr>),
       mem = (\<lambda>a. if a = 0x1018 then 7 else 0), brk = 0x107C, brk_limit = 0x107C\<rparr>"

definition two_blocks :: alloc_state where
  "two_blocks = \<lparr>head = 0x1000, tail = 0x107C,
       hdr = (\<lambda>_. no_header)(0x107C := \<lparr>s_size = 1, s_is_free = 0, s_next = 0\<rparr>,
                                 0x1000 := \<lparr>s_size = 100, s_is_free = 0, s_next = 0x107C\<rparr>),
       mem = (\<lambda>_. 0), brk = 0x1095, brk_limit = 0x2000\<rparr>"

definition first_freed :: alloc_state where
  "first_freed = \<lparr>head = 0x1000, tail = 0x107C,
       hdr = (\<lambda>_. no_header)(0x107C := \<lparr>s_size = 1, s_is_free = 0, s_next = 0\<rparr>,
                                 0x1000 := \<lparr>s_size = 100, s_is_free = 1, s_next = 0x107C\<rparr>),
       mem = (\<lambda>_. 0), brk = 0x1095, brk_limit = 0x2000\<rparr>"

text \<open>\<open>written_block\<close> is \<open>one_block\<close> after its owner wrote two payload bytes.\<close>

definition written_block :: alloc_state where
  "written_block = one_block\<lparr>mem := (\<lambda>a. if a = 0x1018 then 7 else if a = 0x1019 then 9 else 0)\<rparr>"

section \<open>Machine arithmetic of the break\<close>

lemma sint_of_int_64:
  "- (2 ^ 63) \<le> i \<Longrightarrow> i < 2 ^ 63 \<Longrightarrow> sint (word_of_int i :: 64 word) = i"
  by (simp add: sint_sbintrunc' signed_take_bit_int_eq_self)

lemma sint_grow:
  "uint (sz :: 64 word) + 24 < 2 ^ 63 \<Longrightarrow> sint (sizeof_header_t + sz) = uint sz + 24"
proof -
  assume a: "uint sz + 24 < 2 ^ 63"
  have "sizeof_header_t + sz = word_of_int (uint sz + 24)"
    by (simp add: sizeof_header_t_def)
  moreover have "- (2 ^ 63) \<le> uint sz + 24" using uint_ge_0[of sz] by simp
  ultimately show ?thesis using a sint_of_int_64 by metis
qed

lemma sint_shrink:
  "uint (sz :: 64 word) + 24 \<le> 2 ^ 63 \<Longrightarrow> sint (0 - sz - sizeof_header_t) = - (uint sz + 24)"
proof -
  assume a: "uint sz + 24 \<le> 2 ^ 63"
  have "0 - sz - sizeof_header_t = word_of_int (- (uint sz + 24))"
    by (simp add: sizeof_header_t_def)
  moreover have "- (uint sz + 24) < 2 ^ 63"
  proof -
    have "- (uint sz + 24) \<le> 0" using uint_ge_0[of sz] by linarith
    also have "(0::int) < 2 ^ 63" by simp
    finally show ?thesis .
  qed
  ultimately show ?thesis using a sint_of_int_64[of "- (uint sz + 24)"] by simp
qed

lemma sbrk_brk: "brk (snd (sbrk s n)) = brk s + n \<or> snd (sbrk s n) = s"
  by (simp add: sbrk_def Let_def)

lemma sbrk_zero: "uint (brk s) \<le> uint (brk_limit s) \<Longrightarrow> sbrk s 0 = (brk s, s)"
  by (simp add: sbrk_def)

lemma sbrk_ok:
  "0 \<le> uint (brk s) + sint n \<Longrightarrow> uint (brk s) + sint n \<le> uint (brk_limit s) \<Longrightarrow>
   sbrk s n = (brk s, s\<lparr>brk := brk s + n\<rparr>)"
  by (simp add: sbrk_def)

lemma sbrk_fail:
  "\<not> (0 \<le> uint (brk s) + sint n \<and> uint (brk s) + sint n \<le> uint (brk_limit s)) \<Longrightarrow>
   sbrk s n = (- 1, s)"
  by (auto simp add: sbrk_def)

section \<open>The loops on a well-formed chain\<close>

lemma get_free_block_loop_chain:
  "chain h p ps \<Longrightarrow> get_free_block_loop h sz p = Some (first_fit h sz ps)"
proof (induction ps arbitrary: p)
  case Nil
  then show ?case by (subst get_free_block_loop.simps) (simp add: first_fit_def)
next
  case (Cons q qs)
  then show ?case by (subst get_free_block_loop.simps) (auto simp add: first_fit_def fits_def)
qed

lemma chain_unique: "chain h p as \<Longrightarrow> chain h p bs \<Longrightarrow> as = bs"
proof (induction as arbitrary: p bs)
  case Nil then show ?case by (cases bs) auto
next
  case (Cons a as) then show ?case by (cases bs) auto
qed

lemma chain_suffix: "chain h p (as @ b # bs) \<Longrightarrow> chain h b (b # bs)"
  by (induction as arbitrary: p) auto

lemma chain_next_notin: "chain h (s_next (h a)) as \<Longrightarrow> a \<notin> set as"
proof
  assume c: "chain h (s_next (h a)) as" and "a \<in> set as"
  then obtain xs ys where as: "as = xs @ a # ys" by (auto simp: in_set_conv_decomp)
  with c have "chain h a (a # ys)" using chain_suffix by blast
  then have "chain h (s_next (h a)) ys" by simp
  with c have "as = ys" by (rule chain_unique)
  with as show False by simp
qed

lemma chain_distinct: "chain h p ps \<Longrightarrow> distinct ps"
  by (induction ps arbitrary: p) (auto dest: chain_next_notin)

lemma chain_not_null: "chain h p ps \<Longrightarrow> 0 \<notin> set ps"
  by (induction ps arbitrary: p) auto

lemma chain_upd_notin: "u \<notin> set ps \<Longrightarrow> chain (h(u := v)) p ps = chain h p ps"
  by (induction ps arbitrary: p) auto

lemma chain_upd_same_next: "s_next v = s_next (h u) \<Longrightarrow> chain (h(u := v)) p ps = chain h p ps"
  by (induction ps arbitrary: p) auto

lemma free_loop_chain:
  "chain (hdr s) p (qs @ [q, t]) \<Longrightarrow> tail s = t \<Longrightarrow>
   free_loop s p = Some (s\<lparr>tail := q, hdr := (hdr s)(q := (hdr s q)\<lparr>s_next := 0\<rparr>)\<rparr>)"
proof (induction qs arbitrary: p)
  case Nil
  then have f: "p = q" "q \<noteq> 0" "s_next (hdr s q) = tail s" by auto
  let ?s' = "s\<lparr>tail := q, hdr := (hdr s)(q := (hdr s q)\<lparr>s_next := 0\<rparr>)\<rparr>"
  have "free_loop s q = free_loop ?s' 0"
    using f by (simp add: free_loop.simps[of s q])
  also have "\<dots> = Some ?s'"
    by (simp add: free_loop.simps[of ?s' 0])
  finally show ?case unfolding f(1) .
next
  case (Cons a qs)
  from Cons.prems have d: "distinct (a # qs @ [q, t])" using chain_distinct by fastforce
  from Cons.prems have nx: "chain (hdr s) (s_next (hdr s a)) (qs @ [q, t])" and pa: "p = a" "a \<noteq> 0" by auto
  have "s_next (hdr s a) \<noteq> t"
  proof (cases qs)
    case Nil with nx d show ?thesis by auto
  next
    case (Cons b bs) with nx d show ?thesis by auto
  qed
  with Cons.IH[OF nx Cons.prems(2)] pa Cons.prems(2) show ?case
    by (simp add: free_loop.simps[of s a])
qed

section \<open>Block layout\<close>

lemma uint_sizeof [simp]: "uint sizeof_header_t = 24"
  by (simp add: sizeof_header_t_def)

lemma tiles_append: "tiles h a (ps @ qs) b \<longleftrightarrow> (\<exists>m. tiles h a ps m \<and> tiles h m qs b)"
  by (induction ps arbitrary: a) auto

lemma tiles_le: "tiles h a ps b \<Longrightarrow> a \<le> b"
proof (induction ps arbitrary: a)
  case Nil then show ?case by simp
next
  case (Cons p ps)
  then have "a + 24 + uint (s_size (h p)) \<le> b" by simp
  then show ?case using uint_ge_0[of "s_size (h p)"] by linarith
qed

lemma tiles_less: "tiles h a ps b \<Longrightarrow> ps \<noteq> [] \<Longrightarrow> a + 24 < b"
proof (cases ps)
  case Nil then show "ps \<noteq> [] \<Longrightarrow> ?thesis" by simp
next
  case (Cons p qs)
  assume t: "tiles h a ps b"
  with Cons have "a + 24 + uint (s_size (h p)) \<le> b" using tiles_le by auto
  moreover from t Cons have "s_size (h p) \<noteq> 0" by simp
  then have "uint (s_size (h p)) \<noteq> 0" by (simp add: unsigned_eq_0_iff)
  then have "0 < uint (s_size (h p))" using uint_ge_0[of "s_size (h p)"] by linarith
  ultimately show ?thesis by linarith
qed

lemma tiles_mem:
  "tiles h a ps b \<Longrightarrow> p \<in> set ps \<Longrightarrow>
   a \<le> uint p \<and> s_size (h p) \<noteq> 0 \<and> uint p + 24 + uint (s_size (h p)) \<le> b"
proof (induction ps arbitrary: a)
  case Nil then show ?case by simp
next
  case (Cons q qs)
  show ?case
  proof (cases "p = q")
    case True
    with Cons.prems show ?thesis using tiles_le[of h "a + 24 + uint (s_size (h q))" qs b] by auto
  next
    case False
    with Cons.prems have "p \<in> set qs" and t: "tiles h (a + 24 + uint (s_size (h q))) qs b" by auto
    from Cons.IH[OF t this(1)]
    have "a + 24 + uint (s_size (h q)) \<le> uint p" and r: "s_size (h p) \<noteq> 0"
      "uint p + 24 + uint (s_size (h p)) \<le> b" by auto
    then have "a \<le> uint p" using uint_ge_0[of "s_size (h q)"] by linarith
    with r show ?thesis by simp
  qed
qed

lemma tiles_end_last:
  "tiles h a ps b \<Longrightarrow> p \<in> set ps \<Longrightarrow> uint p + 24 + uint (s_size (h p)) = b \<Longrightarrow> p = last ps"
proof (induction ps arbitrary: a)
  case Nil then show ?case by simp
next
  case (Cons q qs)
  show ?case
  proof (cases "qs = []")
    case True with Cons.prems show ?thesis by simp
  next
    case False
    from Cons.prems have t: "tiles h (a + 24 + uint (s_size (h q))) qs b" and q: "uint q = a" by auto
    have "p \<noteq> q"
    proof
      assume "p = q"
      with Cons.prems(3) q have "a + 24 + uint (s_size (h q)) = b" by simp
      with tiles_less[OF t False] show False by simp
    qed
    with Cons.prems have "p \<in> set qs" by simp
    from Cons.IH[OF t this Cons.prems(3)] False show ?thesis by simp
  qed
qed

lemma tiles_upd_notin: "u \<notin> set ps \<Longrightarrow> tiles (h(u := v)) a ps b = tiles h a ps b"
  by (induction ps arbitrary: a) auto

lemma tiles_upd_same_size: "s_size v = s_size (h u) \<Longrightarrow> tiles (h(u := v)) a ps b = tiles h a ps b"
  by (induction ps arbitrary: a) auto

lemma tiles_hd: "tiles h a ps b \<Longrightarrow> ps \<noteq> [] \<Longrightarrow> uint (hd ps) = a"
  by (cases ps) auto

section \<open>What malloc does\<close>

lemma find_fits_mem: "find (fits h sz) ps = Some q \<Longrightarrow> q \<in> set ps \<and> fits h sz q"
  by (auto simp: find_Some_iff)

lemma get_free_block_found:
  "chain (hdr s) (head s) ps \<Longrightarrow> find (fits (hdr s) sz) ps = Some q \<Longrightarrow>
   get_free_block s sz = Some q \<and> q \<noteq> 0"
  using chain_not_null[of "hdr s" "head s" ps] find_fits_mem[of "hdr s" sz ps q]
  by (auto simp: get_free_block_def get_free_block_loop_chain first_fit_def)

lemma get_free_block_none:
  "chain (hdr s) (head s) ps \<Longrightarrow> find (fits (hdr s) sz) ps = None \<Longrightarrow>
   get_free_block s sz = Some 0"
  by (simp add: get_free_block_def get_free_block_loop_chain first_fit_def)

lemma malloc_reuse:
  assumes "chain (hdr s) (head s) ps" "sz \<noteq> 0" "find (fits (hdr s) sz) ps = Some q"
  shows "malloc s sz = Some (q + sizeof_header_t,
           s\<lparr>hdr := (hdr s)(q := (hdr s q)\<lparr>s_is_free := 0\<rparr>)\<rparr>)"
  using get_free_block_found[OF assms(1,3)] assms(2) by (simp add: malloc_def)

lemma malloc_refused:
  assumes "chain (hdr s) (head s) ps" "sz \<noteq> 0" "find (fits (hdr s) sz) ps = None"
    and "\<not> (0 \<le> uint (brk s) + sint (sizeof_header_t + sz) \<and>
            uint (brk s) + sint (sizeof_header_t + sz) \<le> uint (brk_limit s))"
  shows "malloc s sz = Some (0, s)"
  using get_free_block_none[OF assms(1,3)] assms(2) sbrk_fail[OF assms(4)]
  by (simp add: malloc_def)

lemma malloc_grow:
  assumes "chain (hdr s) (head s) ps" "sz \<noteq> 0" "find (fits (hdr s) sz) ps = None"
    and "0 \<le> uint (brk s) + sint (sizeof_header_t + sz)"
    and "uint (brk s) + sint (sizeof_header_t + sz) \<le> uint (brk_limit s)"
    and "brk s \<noteq> - 1"
  shows "malloc s sz = Some (brk s + sizeof_header_t, appended s sz)"
  using get_free_block_none[OF assms(1,3)] assms(2,6) sbrk_ok[OF assms(4,5)]
  by (simp add: malloc_def Let_def appended_def)

lemma chain_snoc:
  "chain h p ps \<Longrightarrow> ps \<noteq> [] \<Longrightarrow> b \<notin> set ps \<Longrightarrow> b \<noteq> 0 \<Longrightarrow> s_next (h b) = 0 \<Longrightarrow>
   chain (h(last ps := (h (last ps))\<lparr>s_next := b\<rparr>)) p (ps @ [b])"
proof (induction ps arbitrary: p)
  case Nil then show ?case by simp
next
  case (Cons q qs)
  show ?case
  proof (cases "qs = []")
    case True
    with Cons.prems show ?thesis by auto
  next
    case False
    from Cons.prems have d: "distinct (q # qs)" using chain_distinct by blast
    with False have ql: "q \<noteq> last qs" by auto
    from Cons.prems have c: "chain h (s_next (h q)) qs" and pq: "p = q" "q \<noteq> 0" by auto
    from Cons.prems have "b \<notin> set qs" by simp
    from Cons.IH[OF c False this Cons.prems(4,5)] ql pq False show ?thesis by simp
  qed
qed

lemma chain_hd: "chain h p ps \<Longrightarrow> ps \<noteq> [] \<Longrightarrow> p = hd ps \<and> p \<noteq> 0"
  by (cases ps) auto

lemma chain_null_iff: "chain h p ps \<Longrightarrow> (p = 0) = (ps = [])"
  by (cases ps) auto

lemma heap_inv_brk_notin:
  assumes "heap_inv s ps" shows "brk s \<notin> set ps"
proof
  assume m: "brk s \<in> set ps"
  then have "ps \<noteq> []" by auto
  with assms have "tiles (hdr s) (uint (hd ps)) ps (uint (brk s))" by (simp add: heap_inv_def)
  from tiles_mem[OF this m] show False using uint_ge_0[of "s_size (hdr s (brk s))"] by linarith
qed

lemma heap_inv_reuse:
  assumes "heap_inv s ps"
  shows "heap_inv (s\<lparr>hdr := (hdr s)(q := (hdr s q)\<lparr>s_is_free := v\<rparr>)\<rparr>) ps"
  using assms by (simp add: heap_inv_def chain_upd_same_next tiles_upd_same_size)

lemma heap_inv_grow:
  assumes inv: "heap_inv s ps" and sz: "sz \<noteq> 0" "uint sz + 24 < 2 ^ 63"
    and ok: "uint (brk s) + sint (sizeof_header_t + sz) \<le> uint (brk_limit s)"
  shows "heap_inv (appended s sz) (ps @ [brk s])"
proof -
  let ?b = "brk s"
  let ?new = "\<lparr>s_size = sz, s_is_free = 0, s_next = 0\<rparr>"
  have sg: "sint (sizeof_header_t + sz) = uint sz + 24" using sz(2) by (rule sint_grow)
  have lim: "uint (brk_limit s) < 2 ^ 63" and b0: "?b \<noteq> 0" and ble: "uint ?b \<le> uint (brk_limit s)"
    using inv by (simp_all add: heap_inv_def)
  have sum: "uint ?b + (24 + uint sz) \<le> uint (brk_limit s)" using ok sg by simp
  have "uint (sizeof_header_t + sz) = 24 + uint sz"
    using sz(2) uint_add_lem[of sizeof_header_t sz] by simp
  moreover have "uint ?b + (24 + uint sz) < 2 ^ 64" using sum lim by simp
  ultimately have ub: "uint (?b + (sizeof_header_t + sz)) = uint ?b + 24 + uint sz"
    using uint_add_lem[of ?b "sizeof_header_t + sz"] by simp
  have bn: "?b \<notin> set ps" using inv by (rule heap_inv_brk_notin)
  have nb0: "?b + (sizeof_header_t + sz) \<noteq> 0"
  proof
    assume "?b + (sizeof_header_t + sz) = 0"
    then have "uint (?b + (sizeof_header_t + sz)) = 0" by simp
    with ub show False using uint_ge_0[of ?b] uint_ge_0[of sz] by linarith
  qed
  show ?thesis
  proof (cases "ps = []")
    case True
    with inv have "head s = 0" "tail s = 0" by (simp_all add: heap_inv_def)
    with True b0 sz(1) ub sum lim nb0 show ?thesis by (simp add: heap_inv_def appended_def)
  next
    case False
    with inv have h4: "chain (hdr s) (head s) ps" and h2: "tail s = last ps"
      and t: "tiles (hdr s) (uint (hd ps)) ps (uint ?b)"
      by (simp_all add: heap_inv_def)
    have h1: "head s \<noteq> 0" using chain_hd[OF h4 False] by blast
    have h3: "last ps \<noteq> 0" using chain_not_null[OF h4] last_in_set[OF False] by metis
    note h = h1 h2 h3 h4
    have lb: "last ps \<noteq> ?b" using bn False last_in_set by metis
    let ?h1 = "(hdr s)(?b := ?new)"
    have c1: "chain ?h1 (head s) ps" using h(4) bn by (simp add: chain_upd_notin)
    have "chain (?h1(last ps := (?h1 (last ps))\<lparr>s_next := ?b\<rparr>)) (head s) (ps @ [?b])"
      using c1 False bn b0 by (intro chain_snoc) simp_all
    moreover
    have t1: "tiles ?h1 (uint (hd ps)) ps (uint ?b)" using t bn by (simp add: tiles_upd_notin)
    have "tiles (?h1(last ps := (?h1 (last ps))\<lparr>s_next := ?b\<rparr>)) (uint (hd ps)) ps (uint ?b)"
      using t1 by (simp add: tiles_upd_same_size)
    then have "tiles (?h1(last ps := (?h1 (last ps))\<lparr>s_next := ?b\<rparr>)) (uint (hd ps)) (ps @ [?b])
                 (uint (?b + (sizeof_header_t + sz)))"
      using lb sz(1) ub by (auto simp add: tiles_append)
    ultimately show ?thesis using h False sum lim nb0 ub by (simp add: heap_inv_def appended_def)
  qed
qed

section \<open>What free does\<close>

lemma p63: "(2::int) ^ 63 = 9223372036854775808" by simp
lemma p64: "(2::int) ^ 64 = 18446744073709551616" by simp

lemma heap_inv_block:
  assumes inv: "heap_inv s ps" and m: "p \<in> set ps"
  shows "uint p + 24 + uint (s_size (hdr s p)) \<le> uint (brk s)"
    and "uint (p + sizeof_header_t) = uint p + 24"
    and "uint (p + sizeof_header_t + s_size (hdr s p)) = uint p + 24 + uint (s_size (hdr s p))"
    and "p + sizeof_header_t \<noteq> 0"
    and "uint (brk s) < 2 ^ 63"
    and "p \<noteq> 0"
    and "s_size (hdr s p) \<noteq> 0"
proof -
  from m have ne: "ps \<noteq> []" by auto
  with inv have t: "tiles (hdr s) (uint (hd ps)) ps (uint (brk s))" by (simp add: heap_inv_def)
  from tiles_mem[OF t m] show e: "uint p + 24 + uint (s_size (hdr s p)) \<le> uint (brk s)"
    and "s_size (hdr s p) \<noteq> 0" by simp_all
  from inv show b: "uint (brk s) < 2 ^ 63" by (simp add: heap_inv_def)
  have "uint p + 24 < 2 ^ 64" using e b uint_ge_0[of "s_size (hdr s p)"] unfolding p63 p64 by linarith
  then show a: "uint (p + sizeof_header_t) = uint p + 24"
    using uint_add_lem[of p sizeof_header_t] by simp
  have "uint p + 24 + uint (s_size (hdr s p)) < 2 ^ 64" using e b unfolding p63 p64 by linarith
  then show "uint (p + sizeof_header_t + s_size (hdr s p)) = uint p + 24 + uint (s_size (hdr s p))"
    using uint_add_lem[of "p + sizeof_header_t" "s_size (hdr s p)"] a by simp
  show "p + sizeof_header_t \<noteq> 0"
  proof
    assume "p + sizeof_header_t = 0"
    then have "uint (p + sizeof_header_t) = 0" by simp
    with a show False using uint_ge_0[of p] by linarith
  qed
  from inv have "chain (hdr s) (head s) ps" by (simp add: heap_inv_def)
  from chain_not_null[OF this] m show "p \<noteq> 0" by auto
qed

lemma heap_inv_trailing_iff:
  assumes inv: "heap_inv s ps" and m: "p \<in> set ps"
  shows "(p + sizeof_header_t + s_size (hdr s p) = brk s) = (p = last ps)"
proof
  assume "p + sizeof_header_t + s_size (hdr s p) = brk s"
  then have "uint (p + sizeof_header_t + s_size (hdr s p)) = uint (brk s)" by simp
  then have e: "uint p + 24 + uint (s_size (hdr s p)) = uint (brk s)"
    using heap_inv_block(3)[OF inv m] by simp
  from m have "ps \<noteq> []" by auto
  with inv have "tiles (hdr s) (uint (hd ps)) ps (uint (brk s))" by (simp add: heap_inv_def)
  from tiles_end_last[OF this m e] show "p = last ps" .
next
  assume l: "p = last ps"
  from m have ne: "ps \<noteq> []" by auto
  with inv have "tiles (hdr s) (uint (hd ps)) ps (uint (brk s))" by (simp add: heap_inv_def)
  moreover from ne have "ps = butlast ps @ [p]" using l by simp
  ultimately have "tiles (hdr s) (uint (hd ps)) (butlast ps @ [p]) (uint (brk s))" by simp
  then have "uint p + 24 + uint (s_size (hdr s p)) = uint (brk s)"
    by (auto simp add: tiles_append)
  then have "uint (p + sizeof_header_t + s_size (hdr s p)) = uint (brk s)"
    using heap_inv_block(3)[OF inv m] by simp
  then show "p + sizeof_header_t + s_size (hdr s p) = brk s" by (simp add: word_uint_eq_iff)
qed

lemma heap_inv_sbrk0: "heap_inv s ps \<Longrightarrow> sbrk s 0 = (brk s, s)"
  by (simp add: heap_inv_def sbrk_zero)

lemma free_null: "free s 0 = Some s"
  by (simp add: free_def)

lemma free_inner:
  assumes inv: "heap_inv s ps" and m: "p \<in> set ps" and nl: "p \<noteq> last ps"
  shows "free s (p + sizeof_header_t) =
           Some (s\<lparr>hdr := (hdr s)(p := (hdr s p)\<lparr>s_is_free := 1\<rparr>)\<rparr>)"
  using heap_inv_block(4)[OF inv m] heap_inv_sbrk0[OF inv] heap_inv_trailing_iff[OF inv m] nl
  by (simp add: free_def)

lemma release_last:
  assumes inv: "heap_inv s ps" and m: "p \<in> set ps" and l: "p = last ps"
    and s1: "brk s1 = brk s" "brk_limit s1 = brk_limit s" "s_size (hdr s1 p) = s_size (hdr s p)"
  shows "sbrk s1 (0 - s_size (hdr s1 p) - sizeof_header_t) = (brk s, s1\<lparr>brk := p\<rparr>)"
proof -
  let ?sz = "s_size (hdr s p)"
  have e: "uint p + 24 + uint ?sz \<le> uint (brk s)" and b: "uint (brk s) < 2 ^ 63"
    using heap_inv_block[OF inv m] by simp_all
  have w: "p + sizeof_header_t + ?sz = brk s" using heap_inv_trailing_iff[OF inv m] l by simp
  then have ue: "uint p + 24 + uint ?sz = uint (brk s)" using heap_inv_block(3)[OF inv m] by simp
  have "uint ?sz + 24 \<le> 2 ^ 63" using e b uint_ge_0[of p] unfolding p63 by linarith
  then have sg: "sint (0 - ?sz - sizeof_header_t) = - (uint ?sz + 24)" by (rule sint_shrink)
  have lim: "uint (brk s) \<le> uint (brk_limit s)" using inv by (simp add: heap_inv_def)
  have ub: "uint (brk s1) = uint (brk s)" "uint (brk_limit s1) = uint (brk_limit s)"
    using s1(1,2) by simp_all
  have n0: "0 \<le> uint (brk s1) + sint (0 - ?sz - sizeof_header_t)"
    using sg ue ub uint_ge_0[of p] by linarith
  have n1: "uint (brk s1) + sint (0 - ?sz - sizeof_header_t) \<le> uint (brk_limit s1)"
    using sg ue ub lim uint_ge_0[of ?sz] by linarith
  have "brk s + (0 - ?sz - sizeof_header_t) = p" using w[symmetric] by simp
  with sbrk_ok[OF n0 n1] s1 show ?thesis by simp
qed

lemma free_single:
  assumes inv: "heap_inv s [p]"
  shows "free s (p + sizeof_header_t) = Some (s\<lparr>head := 0, tail := 0, brk := p\<rparr>)"
proof -
  have m: "p \<in> set [p]" by simp
  have ht: "head s = p" "tail s = p" using inv by (simp_all add: heap_inv_def)
  have tr: "p + sizeof_header_t + s_size (hdr s p) = brk s"
    using heap_inv_trailing_iff[OF inv m] by simp
  have "sbrk (s\<lparr>head := 0, tail := 0\<rparr>) (0 - s_size (hdr (s\<lparr>head := 0, tail := 0\<rparr>) p) - sizeof_header_t)
        = (brk s, s\<lparr>head := 0, tail := 0\<rparr>\<lparr>brk := p\<rparr>)"
    using release_last[OF inv m, of "s\<lparr>head := 0, tail := 0\<rparr>"] by simp
  then show ?thesis
    using heap_inv_block(4)[OF inv m] heap_inv_sbrk0[OF inv] tr ht
    by (simp add: free_def)
qed

lemma free_last:
  assumes inv: "heap_inv s (qs @ [q, p])"
  shows "free s (p + sizeof_header_t) =
           Some (s\<lparr>tail := q, hdr := (hdr s)(q := (hdr s q)\<lparr>s_next := 0\<rparr>), brk := p\<rparr>)"
proof -
  let ?ps = "qs @ [q, p]"
  let ?s1 = "s\<lparr>tail := q, hdr := (hdr s)(q := (hdr s q)\<lparr>s_next := 0\<rparr>)\<rparr>"
  have m: "p \<in> set ?ps" by simp
  have c: "chain (hdr s) (head s) ?ps" and t: "tail s = p" using inv by (simp_all add: heap_inv_def)
  have d: "distinct ?ps" using c by (rule chain_distinct)
  then have qp: "q \<noteq> p" by simp
  have "head s = hd ?ps" using chain_hd[OF c] by simp
  with d have ht: "head s \<noteq> tail s" unfolding t by (cases qs) auto
  have tr: "p + sizeof_header_t + s_size (hdr s p) = brk s"
    using heap_inv_trailing_iff[OF inv m] by simp
  have fl: "free_loop s (head s) = Some ?s1" using free_loop_chain[OF c t] .
  have "sbrk ?s1 (0 - s_size (hdr ?s1 p) - sizeof_header_t) = (brk s, ?s1\<lparr>brk := p\<rparr>)"
    using release_last[OF inv m, of ?s1] qp by simp
  then show ?thesis
    using heap_inv_block(4)[OF inv m] heap_inv_sbrk0[OF inv] tr ht fl
    by (simp add: free_def)
qed

lemma chain_drop_last:
  "chain h p (qs @ [q, t]) \<Longrightarrow> chain (h(q := (h q)\<lparr>s_next := 0\<rparr>)) p (qs @ [q])"
proof (induction qs arbitrary: p)
  case Nil then show ?case by auto
next
  case (Cons a qs)
  from Cons.prems have "distinct (a # qs @ [q, t])" using chain_distinct by fastforce
  then have aq: "a \<noteq> q" by simp
  from Cons.prems have c: "chain h (s_next (h a)) (qs @ [q, t])" and pa: "p = a" "a \<noteq> 0" by auto
  from Cons.IH[OF c] aq pa show ?case by simp
qed

lemma heap_inv_free_single:
  assumes "heap_inv s [p]" shows "heap_inv (s\<lparr>head := 0, tail := 0, brk := p\<rparr>) []"
proof -
  have "p \<in> set [p]" by simp
  from heap_inv_block[OF assms this] have "uint p + 24 + uint (s_size (hdr s p)) \<le> uint (brk s)" "p \<noteq> 0"
    by simp_all
  then have "uint p \<le> uint (brk s)" using uint_ge_0[of "s_size (hdr s p)"] by linarith
  with assms \<open>p \<noteq> 0\<close> show ?thesis by (simp add: heap_inv_def)
qed

lemma heap_inv_free_last:
  assumes inv: "heap_inv s (qs @ [q, p])"
  shows "heap_inv (s\<lparr>tail := q, hdr := (hdr s)(q := (hdr s q)\<lparr>s_next := 0\<rparr>), brk := p\<rparr>) (qs @ [q])"
proof -
  let ?h = "(hdr s)(q := (hdr s q)\<lparr>s_next := 0\<rparr>)"
  have m: "p \<in> set (qs @ [q, p])" by simp
  from heap_inv_block[OF inv m] have e: "uint p + 24 + uint (s_size (hdr s p)) \<le> uint (brk s)" and p0: "p \<noteq> 0"
    by simp_all
  then have le: "uint p \<le> uint (brk s)" using uint_ge_0[of "s_size (hdr s p)"] by linarith
  have c: "chain (hdr s) (head s) (qs @ [q, p])" using inv by (simp add: heap_inv_def)
  have c': "chain ?h (head s) (qs @ [q])" using c by (rule chain_drop_last)
  have "tiles (hdr s) (uint (hd (qs @ [q, p]))) ((qs @ [q]) @ [p]) (uint (brk s))"
    using inv by (simp add: heap_inv_def)
  then have "tiles (hdr s) (uint (hd (qs @ [q, p]))) (qs @ [q]) (uint p)"
    unfolding tiles_append[of _ _ "qs @ [q]" "[p]"] by auto
  moreover have "hd (qs @ [q, p]) = hd (qs @ [q])" by (cases qs) auto
  ultimately have "tiles ?h (uint (hd (qs @ [q]))) (qs @ [q]) (uint p)"
    by (simp add: tiles_upd_same_size)
  with c' le p0 inv show ?thesis by (simp add: heap_inv_def)
qed

lemma list_last_cases:
  "ps \<noteq> [] \<Longrightarrow> (ps = [last ps]) \<or> (\<exists>qs q. ps = qs @ [q, last ps])"
proof (induction ps rule: rev_induct)
  case Nil then show ?case by simp
next
  case (snoc x xs)
  show ?case
  proof (cases xs rule: rev_cases)
    case Nil then show ?thesis by simp
  next
    case (snoc ys y) then show ?thesis by auto
  qed
qed

lemma free_block_inv:
  assumes inv: "heap_inv s ps" and m: "p \<in> set ps"
  shows "\<exists>s'. free s (p + sizeof_header_t) = Some s' \<and> mem s' = mem s \<and> brk_limit s' = brk_limit s \<and>
           (if p = last ps
            then heap_inv s' (butlast ps) \<and> brk s' = p
            else heap_inv s' ps \<and> brk s' = brk s \<and> s_is_free (hdr s' p) = 1)"
proof (cases "p = last ps")
  case False
  with free_inner[OF inv m False] heap_inv_reuse[OF inv, of p 1] show ?thesis by simp
next
  case True
  from m have "ps \<noteq> []" by auto
  from list_last_cases[OF this] show ?thesis
  proof
    assume "ps = [last ps]"
    with True have ps: "ps = [p]" by simp
    with inv have i: "heap_inv s [p]" by simp
    from free_single[OF i] heap_inv_free_single[OF i] ps show ?thesis by simp
  next
    assume "\<exists>qs q. ps = qs @ [q, last ps]"
    then obtain qs q where ps: "ps = qs @ [q, p]" using True by auto
    with inv have i: "heap_inv s (qs @ [q, p])" by simp
    from free_last[OF i] heap_inv_free_last[OF i] ps show ?thesis by (simp add: butlast_append)
  qed
qed

lemma malloc_null_unchanged:
  assumes inv: "heap_inv s ps" and r: "malloc s sz = Some (0, s1)"
  shows "s1 = s"
proof (cases "sz = 0")
  case True with r show ?thesis by (simp add: malloc_def)
next
  case False
  have c: "chain (hdr s) (head s) ps" using inv by (simp add: heap_inv_def)
  show ?thesis
  proof (cases "find (fits (hdr s) sz) ps")
    case (Some q)
    then have "q \<in> set ps" using find_fits_mem by blast
    from heap_inv_block(4)[OF inv this] malloc_reuse[OF c False Some] r show ?thesis by simp
  next
    case None
    show ?thesis
    proof (cases "0 \<le> uint (brk s) + sint (sizeof_header_t + sz) \<and>
            uint (brk s) + sint (sizeof_header_t + sz) \<le> uint (brk_limit s)")
      case False
      from malloc_refused[OF c \<open>sz \<noteq> 0\<close> None False] r show ?thesis by simp
    next
      case True
      have b: "uint (brk s) < 2 ^ 63" using inv by (simp add: heap_inv_def)
      then have "uint (brk s) + 24 < 2 ^ 64" unfolding p63 p64 by linarith
      then have u: "uint (brk s + sizeof_header_t) = uint (brk s) + 24"
        using uint_add_lem[of "brk s" sizeof_header_t] by simp
      have n0: "brk s + sizeof_header_t \<noteq> 0"
      proof
        assume "brk s + sizeof_header_t = 0"
        then have "uint (brk s + sizeof_header_t) = 0" by simp
        with u show False using uint_ge_0[of "brk s"] by linarith
      qed
      have n1: "brk s \<noteq> - 1"
      proof
        assume "brk s = - 1"
        then have "uint (brk s) = 18446744073709551615"
          by (simp add: unsigned_minus_1_eq_mask mask_eq_exp_minus_1)
        with b show False unfolding p63 by linarith
      qed
      from True malloc_grow[OF c \<open>sz \<noteq> 0\<close> None _ _ n1] r n0 show ?thesis by simp
    qed
  qed
qed

lemma heap_inv_brk:
  assumes "heap_inv s ps"
  shows "brk s \<noteq> - 1" and "brk s + sizeof_header_t \<noteq> 0"
    and "uint (brk s + sizeof_header_t) = uint (brk s) + 24"
proof -
  have b: "uint (brk s) < 2 ^ 63" using assms by (simp add: heap_inv_def)
  then have "uint (brk s) + 24 < 2 ^ 64" unfolding p63 p64 by linarith
  then show u: "uint (brk s + sizeof_header_t) = uint (brk s) + 24"
    using uint_add_lem[of "brk s" sizeof_header_t] by simp
  show "brk s + sizeof_header_t \<noteq> 0"
  proof
    assume "brk s + sizeof_header_t = 0"
    then have "uint (brk s + sizeof_header_t) = 0" by simp
    with u show False using uint_ge_0[of "brk s"] by linarith
  qed
  show "brk s \<noteq> - 1"
  proof
    assume "brk s = - 1"
    then have "uint (brk s) = 18446744073709551615"
      by (simp add: unsigned_minus_1_eq_mask mask_eq_exp_minus_1)
    with b show False unfolding p63 by linarith
  qed
qed

lemma sbrk_granted_iff:
  "brk s \<noteq> - 1 \<Longrightarrow>
   (fst (sbrk s n) \<noteq> - 1) =
   (0 \<le> uint (brk s) + sint n \<and> uint (brk s) + sint n \<le> uint (brk_limit s))"
  by (simp add: sbrk_def Let_def)

lemma malloc_cases [consumes 2, case_names reuse refused grow]:
  assumes inv: "heap_inv s ps" and sz: "sz \<noteq> 0"
  obtains
    q where "find (fits (hdr s) sz) ps = Some q" "q \<in> set ps" "fits (hdr s) sz q"
      "malloc s sz = Some (q + sizeof_header_t, s\<lparr>hdr := (hdr s)(q := (hdr s q)\<lparr>s_is_free := 0\<rparr>)\<rparr>)"
  | "find (fits (hdr s) sz) ps = None" "fst (sbrk s (sizeof_header_t + sz)) = - 1"
      "malloc s sz = Some (0, s)"
  | "find (fits (hdr s) sz) ps = None" "fst (sbrk s (sizeof_header_t + sz)) \<noteq> - 1"
      "malloc s sz = Some (brk s + sizeof_header_t, appended s sz)"
proof -
  have c: "chain (hdr s) (head s) ps" using inv by (simp add: heap_inv_def)
  note b = heap_inv_brk[OF inv]
  show thesis
  proof (cases "find (fits (hdr s) sz) ps")
    case (Some q)
    from find_fits_mem[OF Some] malloc_reuse[OF c sz Some] Some that(1) show thesis by blast
  next
    case None
    show thesis
    proof (cases "fst (sbrk s (sizeof_header_t + sz)) = - 1")
      case True
      then have "\<not> (0 \<le> uint (brk s) + sint (sizeof_header_t + sz) \<and>
            uint (brk s) + sint (sizeof_header_t + sz) \<le> uint (brk_limit s))"
        using sbrk_granted_iff[OF b(1), of "sizeof_header_t + sz"] by simp
      from malloc_refused[OF c sz None this] None True that(2) show thesis by blast
    next
      case False
      then have "0 \<le> uint (brk s) + sint (sizeof_header_t + sz)"
        "uint (brk s) + sint (sizeof_header_t + sz) \<le> uint (brk_limit s)"
        using sbrk_granted_iff[OF b(1), of "sizeof_header_t + sz"] by simp_all
      from malloc_grow[OF c sz None this b(1)] None False that(3) show thesis by blast
    qed
  qed
qed

lemma malloc_total:
  assumes "heap_inv s ps" shows "\<exists>r s'. malloc s sz = Some (r, s')"
proof (cases "sz = 0")
  case True then show ?thesis by (simp add: malloc_def)
next
  case False
  from assms False show ?thesis by (cases rule: malloc_cases) auto
qed

lemma null_header_notin:
  assumes inv: "heap_inv s ps" shows "(0::ptr) - sizeof_header_t \<notin> set ps"
proof
  assume a: "(0::ptr) - sizeof_header_t \<in> set ps"
  from heap_inv_block(4)[OF inv a] show False by simp
qed

lemma find_first_split:
  "find P ps = Some q \<Longrightarrow> \<exists>qs rs. ps = qs @ q # rs \<and> (\<forall>x\<in>set qs. \<not> P x) \<and> P q"
proof (induction ps)
  case Nil then show ?case by simp
next
  case (Cons a ps)
  show ?case
  proof (cases "P a")
    case True
    with Cons.prems have "a = q" by simp
    with True have "a # ps = [] @ q # ps \<and> (\<forall>x\<in>set []. \<not> P x) \<and> P q" by simp
    then show ?thesis by blast
  next
    case False
    with Cons.prems have "find P ps = Some q" by simp
    from Cons.IH[OF this] obtain qs rs where "ps = qs @ q # rs" "\<forall>x\<in>set qs. \<not> P x" "P q" by blast
    with False have "a # ps = (a # qs) @ q # rs \<and> (\<forall>x\<in>set (a # qs). \<not> P x) \<and> P q" by simp
    then show ?thesis by blast
  qed
qed

lemma appended_brk:
  assumes inv: "heap_inv s ps" and sz: "uint sz + 24 < 2 ^ 63"
    and ok: "fst (sbrk s (sizeof_header_t + sz)) \<noteq> - 1"
  shows "uint (brk (appended s sz)) = uint (brk s) + 24 + uint sz"
    and "uint (brk s) + sint (sizeof_header_t + sz) \<le> uint (brk_limit s)"
proof -
  have sg: "sint (sizeof_header_t + sz) = uint sz + 24" using sz by (rule sint_grow)
  have lim: "uint (brk_limit s) < 2 ^ 63" using inv by (simp add: heap_inv_def)
  show le: "uint (brk s) + sint (sizeof_header_t + sz) \<le> uint (brk_limit s)"
    using ok sbrk_granted_iff[OF heap_inv_brk(1)[OF inv], of "sizeof_header_t + sz"] by simp
  have "uint (sizeof_header_t + sz) = 24 + uint sz"
    using sz uint_add_lem[of sizeof_header_t sz] by simp
  moreover have "uint (brk s) + (24 + uint sz) < 2 ^ 64" using le sg lim unfolding p63 p64 by linarith
  ultimately have "uint (brk s + (sizeof_header_t + sz)) = uint (brk s) + 24 + uint sz"
    using uint_add_lem[of "brk s" "sizeof_header_t + sz"] by simp
  then show "uint (brk (appended s sz)) = uint (brk s) + 24 + uint sz"
    by (simp add: appended_def)
qed

lemma appended_header:
  assumes inv: "heap_inv s ps"
  shows "hdr (appended s sz) (brk s) = \<lparr>s_size = sz, s_is_free = 0, s_next = 0\<rparr>"
proof (cases "ps = []")
  case True
  with inv have "tail s = 0" by (simp add: heap_inv_def)
  then show ?thesis by (simp add: appended_def)
next
  case False
  with inv have "tail s = last ps" by (simp add: heap_inv_def)
  with False heap_inv_brk_notin[OF inv] have "tail s \<noteq> brk s" using last_in_set by metis
  then show ?thesis by (simp add: appended_def)
qed

lemma mul_overflow_check:
  fixes num nsize :: size_t
  assumes "num \<noteq> 0"
  shows "(nsize \<noteq> (num * nsize) div num) = (2 ^ 64 \<le> unat num * unat nsize)"
proof -
  let ?a = "unat num" and ?b = "unat nsize"
  have a0: "0 < ?a" using assms by (simp add: unat_gt_0)
  have prod: "unat (num * nsize) = (?a * ?b) mod 2 ^ 64"
    by (simp add: unat_word_ariths)
  have dv: "unat ((num * nsize) div num) = ((?a * ?b) mod 2 ^ 64) div ?a"
    by (simp add: unat_div prod)
  show ?thesis
  proof (cases "?a * ?b < 2 ^ 64")
    case True
    then have "((?a * ?b) mod 2 ^ 64) div ?a = ?b" using a0 by simp
    with dv have "unat ((num * nsize) div num) = unat nsize" by simp
    then have "(num * nsize) div num = nsize" by (simp add: word_unat_eq_iff)
    with True show ?thesis by simp
  next
    case False
    have "(?a * ?b) mod 2 ^ 64 < (2 :: nat) ^ 64" by simp
    with False have "(?a * ?b) mod 2 ^ 64 < ?a * ?b" by linarith
    then have "((?a * ?b) mod 2 ^ 64) div ?a < ?b"
      using a0 by (simp add: div_less_iff_less_mult mult.commute)
    with dv have "unat ((num * nsize) div num) \<noteq> unat nsize" by simp
    then have "(num * nsize) div num \<noteq> nsize" by auto
    with False show ?thesis by auto
  qed
qed

lemma memset_zeroed: "i < n \<Longrightarrow> memset m block 0 n (block + i) = 0"
  by (simp add: memset_def)

lemma heap_inv_mem [simp]: "heap_inv (s\<lparr>mem := m\<rparr>) ps = heap_inv s ps"
  by (simp add: heap_inv_def)

lemma malloc_inv:
  assumes inv: "heap_inv s ps" and sz: "uint sz + 24 < 2 ^ 63"
    and m: "malloc s sz = Some (r, s')"
  shows "heap_inv s' ps \<or> (r = brk s + sizeof_header_t \<and> heap_inv s' (ps @ [brk s]))"
proof (cases "sz = 0")
  case True
  with m inv show ?thesis by (simp add: malloc_def)
next
  case False
  from inv False show ?thesis
  proof (cases rule: malloc_cases)
    case (reuse q)
    with m heap_inv_reuse[OF inv, of q 0] show ?thesis by simp
  next
    case refused
    with m inv show ?thesis by simp
  next
    case grow
    from appended_brk(2)[OF inv sz grow(2)] heap_inv_grow[OF inv False sz] grow(3) m
    show ?thesis by simp
  qed
qed

lemma calloc_inv:
  assumes inv: "heap_inv s ps" and sz: "uint (num * nsize) + 24 < 2 ^ 63"
    and m: "calloc s num nsize = Some (r, s')"
  shows "\<exists>ps'. heap_inv s' ps'"
proof -
  from malloc_total[OF inv] obtain r1 s1 where m1: "malloc s (num * nsize) = Some (r1, s1)"
    by blast
  from malloc_inv[OF inv sz m1] have "\<exists>ps'. heap_inv s1 ps'" by blast
  with m m1 inv show ?thesis
    by (auto simp add: calloc_def Let_def split: if_splits)
qed

lemma realloc_inv:
  assumes inv: "heap_inv s ps" and p: "p \<in> set ps" and sz: "uint sz + 24 < 2 ^ 63"
    and m: "realloc s (p + sizeof_header_t) sz = Some (r, s')"
  shows "\<exists>ps'. heap_inv s' ps'"
proof (cases "sz = 0 \<or> sz \<le> s_size (hdr s p)")
  case True
  with m inv heap_inv_block(4)[OF inv p] show ?thesis
    by (cases "sz = 0") (auto simp add: realloc_def malloc_def Let_def)
next
  case False
  then have sz0: "sz \<noteq> 0" and nle: "\<not> sz \<le> s_size (hdr s p)" by simp_all
  from malloc_total[OF inv] obtain r1 s1 where m1: "malloc s sz = Some (r1, s1)" by blast
  from malloc_inv[OF inv sz m1] have "\<exists>ps1. heap_inv s1 ps1 \<and> set ps \<subseteq> set ps1"
  proof
    assume "heap_inv s1 ps"
    then have "heap_inv s1 ps \<and> set ps \<subseteq> set ps" by simp
    then show ?thesis by blast
  next
    assume "r1 = brk s + sizeof_header_t \<and> heap_inv s1 (ps @ [brk s])"
    then have "heap_inv s1 (ps @ [brk s]) \<and> set ps \<subseteq> set (ps @ [brk s])" by auto
    then show ?thesis by blast
  qed
  then obtain ps1 where i1: "heap_inv s1 ps1" and s: "set ps \<subseteq> set ps1" by blast
  show ?thesis
  proof (cases "r1 = 0")
    case True
    with m m1 sz0 nle i1 heap_inv_block(4)[OF inv p] show ?thesis
      by (auto simp add: realloc_def)
  next
    case r1: False
    let ?s2 = "s1\<lparr>mem := memcpy (mem s1) r1 (p + sizeof_header_t) (s_size (hdr s1 p))\<rparr>"
    have i2: "heap_inv ?s2 ps1" using i1 by simp
    from s p have p1: "p \<in> set ps1" by blast
    from free_block_inv[OF i2 p1] obtain s3 where
      f: "free ?s2 (p + sizeof_header_t) = Some s3" and i3: "\<exists>ps'. heap_inv s3 ps'"
      by (auto split: if_splits)
    from m m1 sz0 nle r1 f heap_inv_block(4)[OF inv p] have "s' = s3"
      by (simp add: realloc_def Let_def)
    with i3 show ?thesis by simp
  qed
qed

lemma free_inv:
  assumes inv: "heap_inv s ps" and p: "p \<in> set ps"
  shows "\<exists>s' ps'. free s (p + sizeof_header_t) = Some s' \<and> heap_inv s' ps'"
  using free_block_inv[OF inv p] by (auto split: if_splits)

lemma heap_inv_chain_integrity:
  assumes "heap_inv s ps"
  shows "chain (hdr s) (head s) ps" and "distinct ps"
    and "(head s = 0) = (ps = [])" and "(tail s = 0) = (ps = [])"
    and "ps \<noteq> [] \<Longrightarrow> tail s = last ps \<and> s_next (hdr s (tail s)) = 0"
proof -
  show c: "chain (hdr s) (head s) ps" using assms by (simp add: heap_inv_def)
  then show "distinct ps" by (rule chain_distinct)
  from c show "(head s = 0) = (ps = [])" by (rule chain_null_iff)
  have t: "tail s = (if ps = [] then 0 else last ps)" using assms by (simp add: heap_inv_def)
  show "(tail s = 0) = (ps = [])"
  proof (cases "ps = []")
    case True with t show ?thesis by simp
  next
    case False
    then have "last ps \<in> set ps" by simp
    with chain_not_null[OF c] have "last ps \<noteq> 0" by metis
    with t False show ?thesis by simp
  qed
  show "ps \<noteq> [] \<Longrightarrow> tail s = last ps \<and> s_next (hdr s (tail s)) = 0"
  proof -
    assume ne: "ps \<noteq> []"
    then have "ps = butlast ps @ [last ps]" by simp
    with c have "chain (hdr s) (head s) (butlast ps @ last ps # [])" by simp
    from chain_suffix[OF this] have "s_next (hdr s (last ps)) = 0" by simp
    with t ne show ?thesis by simp
  qed
qed

lemma heap_inv_integrity:
  assumes "heap_inv s ps" shows "chain_integrity s"
proof -
  have "chain (hdr s) (head s) ps \<and> distinct ps \<and> tail s = (if ps = [] then 0 else last ps)"
    using heap_inv_chain_integrity(1,2)[OF assms] assms by (simp add: heap_inv_def)
  then show ?thesis unfolding chain_integrity_def by blast
qed

lemma snd_sbrk_zero: "snd (sbrk s 0) = s"
  by (simp add: sbrk_def Let_def)

lemma sbrk_mem: "mem (snd (sbrk s n)) = mem s"
  by (simp add: sbrk_def Let_def)

lemma free_total:
  assumes c: "chain (hdr s) (head s) ps" and t: "tail s = (if ps = [] then 0 else last ps)"
  shows "\<exists>s'. free s block = Some s' \<and> mem s' = mem s"
proof (cases "block = 0")
  case True then show ?thesis by (simp add: free_def)
next
  case False
  obtain pb where sb: "sbrk s 0 = (pb, s)" using snd_sbrk_zero[of s] by (cases "sbrk s 0") simp
  show ?thesis
  proof (cases "block + s_size (hdr s (block - sizeof_header_t)) = pb")
    case nt: False
    with False sb show ?thesis by (simp add: free_def Let_def)
  next
    case tr: True
    show ?thesis
    proof (cases "head s = tail s")
      case True
      with False sb tr show ?thesis by (simp add: free_def sbrk_mem Let_def)
    next
      case ne: False
      have "ps \<noteq> []"
      proof
        assume "ps = []"
        with c t have "head s = 0" "tail s = 0" by simp_all
        with ne show False by simp
      qed
      from list_last_cases[OF this] have "\<exists>qs q. ps = qs @ [q, last ps]"
      proof
        assume "ps = [last ps]"
        then obtain x where "ps = [x]" by blast
        with c t have "head s = x" "tail s = x" by simp_all
        with ne show ?thesis by simp
      qed
      then obtain qs q where ps: "ps = qs @ [q, last ps]" by blast
      from \<open>ps \<noteq> []\<close> t have tl: "tail s = last ps" by simp
      from c ps have "chain (hdr s) (head s) (qs @ [q, last ps])" by simp
      from free_loop_chain[OF this tl]
      have "free_loop s (head s) = Some (s\<lparr>tail := q, hdr := (hdr s)(q := (hdr s q)\<lparr>s_next := 0\<rparr>)\<rparr>)" .
      with False sb tr ne show ?thesis by (simp add: free_def sbrk_mem Let_def)
    qed
  qed
qed

lemma appended_chain:
  assumes inv: "heap_inv s ps"
  shows "chain (hdr (appended s sz)) (head (appended s sz)) (ps @ [brk s])"
    and "tail (appended s sz) = brk s"
    and "mem (appended s sz) = mem s"
    and "brk_limit (appended s sz) = brk_limit s"
    and "brk (appended s sz) = brk s + (sizeof_header_t + sz)"
    and "x \<in> set ps \<Longrightarrow> s_size (hdr (appended s sz) x) = s_size (hdr s x) \<and>
           s_is_free (hdr (appended s sz) x) = s_is_free (hdr s x)"
    and "head (appended s sz) = (if ps = [] then brk s else head s)"
proof -
  let ?b = "brk s"
  let ?new = "\<lparr>s_size = sz, s_is_free = 0, s_next = 0\<rparr>"
  show "tail (appended s sz) = brk s" "mem (appended s sz) = mem s"
    "brk_limit (appended s sz) = brk_limit s"
    "brk (appended s sz) = brk s + (sizeof_header_t + sz)"
    by (simp_all add: appended_def)
  have bn: "?b \<notin> set ps" using inv by (rule heap_inv_brk_notin)
  have b0: "?b \<noteq> 0" using inv by (simp add: heap_inv_def)
  have c: "chain (hdr s) (head s) ps" using inv by (simp add: heap_inv_def)
  show "head (appended s sz) = (if ps = [] then brk s else head s)"
    using chain_null_iff[OF c] by (simp add: appended_def)
  show "x \<in> set ps \<Longrightarrow> s_size (hdr (appended s sz) x) = s_size (hdr s x) \<and>
           s_is_free (hdr (appended s sz) x) = s_is_free (hdr s x)"
    using bn by (auto simp add: appended_def)
  show "chain (hdr (appended s sz)) (head (appended s sz)) (ps @ [brk s])"
  proof (cases "ps = []")
    case True
    with inv have "head s = 0" "tail s = 0" by (simp_all add: heap_inv_def)
    with True b0 show ?thesis by (simp add: appended_def)
  next
    case False
    with inv have h2: "tail s = last ps" by (simp add: heap_inv_def)
    have h1: "head s \<noteq> 0" using chain_hd[OF c False] by blast
    have h3: "last ps \<noteq> 0" using chain_not_null[OF c] last_in_set[OF False] by metis
    let ?h1 = "(hdr s)(?b := ?new)"
    have c1: "chain ?h1 (head s) ps" using c bn by (simp add: chain_upd_notin)
    have "chain (?h1(last ps := (?h1 (last ps))\<lparr>s_next := ?b\<rparr>)) (head s) (ps @ [?b])"
      using c1 False bn b0 by (intro chain_snoc) simp_all
    with h1 h2 h3 show ?thesis by (simp add: appended_def)
  qed
qed

lemma find_fits_cong:
  "(\<And>x. x \<in> set ps \<Longrightarrow> s_size (h' x) = s_size (h x) \<and> s_is_free (h' x) = s_is_free (h x)) \<Longrightarrow>
   find (fits h' sz) ps = find (fits h sz) ps"
  by (induction ps) (auto simp add: fits_def)

lemma find_first_at:
  "(\<forall>x\<in>set qs. \<not> P x) \<Longrightarrow> P q \<Longrightarrow> find P (qs @ q # rs) = Some q"
  by (induction qs) auto

lemma sint_neg_64:
  fixes x :: "64 word"
  assumes "- (2 ^ 63) < sint x"
  shows "sint (- x) = - sint x"
proof -
  have "- x = word_of_int (- sint x)" by simp
  moreover have "- (2 ^ 63) \<le> - sint x" using sint_lt[of x] by simp
  moreover have "- sint x < 2 ^ 63" using assms by linarith
  ultimately show ?thesis using sint_of_int_64[of "- sint x"] by simp
qed

lemma malloc_keeps_chain:
  assumes inv: "heap_inv s ps" and p: "p \<in> set ps" and lt: "s_size (hdr s p) < sz"
    and m: "malloc s sz = Some (ret, s1)" and r: "ret \<noteq> 0"
  shows "\<exists>ps1. chain (hdr s1) (head s1) ps1 \<and> tail s1 = (if ps1 = [] then 0 else last ps1)"
    and "mem s1 = mem s" and "s_size (hdr s1 p) = s_size (hdr s p)"
    and "ret \<noteq> p + sizeof_header_t"
proof -
  from lt have sz: "sz \<noteq> 0" by (auto simp add: word_less_nat_alt)
  have c: "chain (hdr s) (head s) ps" and t: "tail s = (if ps = [] then 0 else last ps)"
    using inv by (simp_all add: heap_inv_def)
  from inv sz
  have "(\<exists>ps1. chain (hdr s1) (head s1) ps1 \<and> tail s1 = (if ps1 = [] then 0 else last ps1)) \<and>
        mem s1 = mem s \<and> s_size (hdr s1 p) = s_size (hdr s p) \<and> ret \<noteq> p + sizeof_header_t"
  proof (cases rule: malloc_cases)
    case (reuse q)
    from reuse(3) lt have qp: "q \<noteq> p" by (auto simp add: fits_def)
    from reuse(4) m have s1: "s1 = s\<lparr>hdr := (hdr s)(q := (hdr s q)\<lparr>s_is_free := 0\<rparr>)\<rparr>"
      and rq: "ret = q + sizeof_header_t" by simp_all
    have "chain (hdr s1) (head s1) ps \<and> tail s1 = (if ps = [] then 0 else last ps)"
      using c t s1 by (simp add: chain_upd_same_next)
    then have "\<exists>ps1. chain (hdr s1) (head s1) ps1 \<and> tail s1 = (if ps1 = [] then 0 else last ps1)"
      by blast
    with s1 rq qp show ?thesis by simp
  next
    case refused
    with m r show ?thesis by simp
  next
    case grow
    with m have s1: "s1 = appended s sz" and rb: "ret = brk s + sizeof_header_t" by simp_all
    from heap_inv_brk_notin[OF inv] p have bp: "brk s \<noteq> p" by auto
    have "chain (hdr s1) (head s1) (ps @ [brk s]) \<and>
          tail s1 = (if ps @ [brk s] = [] then 0 else last (ps @ [brk s]))"
      using appended_chain(1,2)[OF inv, of sz] s1 by simp
    then have "\<exists>ps1. chain (hdr s1) (head s1) ps1 \<and> tail s1 = (if ps1 = [] then 0 else last ps1)"
      by blast
    with appended_chain(3)[OF inv] appended_chain(6)[OF inv p] s1 rb bp show ?thesis by simp
  qed
  then show "\<exists>ps1. chain (hdr s1) (head s1) ps1 \<and> tail s1 = (if ps1 = [] then 0 else last ps1)"
    and "mem s1 = mem s" and "s_size (hdr s1 p) = s_size (hdr s p)"
    and "ret \<noteq> p + sizeof_header_t" by simp_all
qed

lemma free_block_frame:
  assumes inv: "heap_inv s ps" and m: "p \<in> set ps"
    and f: "free s (p + sizeof_header_t) = Some s'"
  shows "s_size (hdr s' x) = s_size (hdr s x)"
    and "x \<noteq> p \<Longrightarrow> s_is_free (hdr s' x) = s_is_free (hdr s x)"
proof -
  have "s_size (hdr s' x) = s_size (hdr s x) \<and>
        (x \<noteq> p \<longrightarrow> s_is_free (hdr s' x) = s_is_free (hdr s x))"
  proof (cases "p = last ps")
    case False
    with free_inner[OF inv m False] f show ?thesis by auto
  next
    case True
    from m have "ps \<noteq> []" by auto
    from list_last_cases[OF this] show ?thesis
    proof
      assume "ps = [last ps]"
      with True have ps: "ps = [p]" by simp
      with inv have i: "heap_inv s [p]" by simp
      from free_single[OF i] f show ?thesis by auto
    next
      assume "\<exists>qs q. ps = qs @ [q, last ps]"
      then obtain qs q where ps: "ps = qs @ [q, p]" using True by auto
      with inv have i: "heap_inv s (qs @ [q, p])" by simp
      from free_last[OF i] f show ?thesis by auto
    qed
  qed
  then show "s_size (hdr s' x) = s_size (hdr s x)"
    and "x \<noteq> p \<Longrightarrow> s_is_free (hdr s' x) = s_is_free (hdr s x)" by simp_all
qed

lemma uint_sbrk_new:
  fixes b x :: "64 word"
  assumes "0 \<le> uint b + sint x" and "uint b + sint x \<le> l" and "l < 2 ^ 63"
  shows "uint (b + x) = uint b + sint x"
proof -
  have e: "b + x = word_of_int (uint b + sint x)" by simp
  have lt: "uint b + sint x < 2 ^ 64" using assms(2,3) unfolding p63 p64 by linarith
  have "uint (word_of_int (uint b + sint x) :: 64 word) = (uint b + sint x) mod 2 ^ 64"
    using uint_word_of_int[where 'a = 64, of "uint b + sint x"] by simp
  also have "\<dots> = uint b + sint x" using assms(1) lt by (rule mod_pos_pos_trivial)
  finally show ?thesis unfolding e[symmetric] .
qed

lemma free_appended:
  assumes inv: "heap_inv s ps" and g: "fst (sbrk s (sizeof_header_t + n)) \<noteq> - 1"
  shows "\<exists>s2. free (appended s n) (brk s + sizeof_header_t) = Some s2 \<and>
           head s2 = head s \<and> tail s2 = tail s \<and> brk s2 = brk s \<and>
           brk_limit s2 = brk_limit s \<and> chain (hdr s2) (head s2) ps \<and>
           (\<forall>x\<in>set ps. s_size (hdr s2 x) = s_size (hdr s x) \<and>
                        s_is_free (hdr s2 x) = s_is_free (hdr s x))"
proof -
  let ?b = "brk s" and ?s1 = "appended s n" and ?x = "sizeof_header_t + n"
  note b = heap_inv_brk[OF inv]
  note a = appended_chain[OF inv, where sz = n]
  have lim: "uint (brk_limit s) < 2 ^ 63" and ble: "uint ?b \<le> uint (brk_limit s)"
    using inv by (simp_all add: heap_inv_def)
  have gr: "0 \<le> uint ?b + sint ?x" "uint ?b + sint ?x \<le> uint (brk_limit s)"
    using g sbrk_granted_iff[OF b(1), of ?x] by simp_all
  have u1: "uint (brk ?s1) = uint ?b + sint ?x"
    using uint_sbrk_new[OF gr lim] a(5) by simp
  have sb0: "sbrk ?s1 0 = (brk ?s1, ?s1)"
    using u1 gr(2) a(4) by (intro sbrk_zero) simp
  have hb: "hdr ?s1 ?b = \<lparr>s_size = n, s_is_free = 0, s_next = 0\<rparr>"
    using inv by (rule appended_header)
  have tr: "?b + sizeof_header_t + s_size (hdr ?s1 ?b) = brk ?s1"
    using hb a(5) by (simp add: add.assoc)
  have hd: "?b + sizeof_header_t - sizeof_header_t = ?b" by simp
  have "uint ?b < 2 ^ 63" using ble lim by linarith
  with gr(1) have "- (2 ^ 63) < sint ?x" unfolding p63 by linarith
  then have "sint (- ?x) = - sint ?x" by (rule sint_neg_64)
  moreover have "0 - n - sizeof_header_t = - ?x" by simp
  ultimately have sn: "sint (0 - n - sizeof_header_t) = - sint ?x" by (simp only:)
  have rel: "\<And>t :: alloc_state. brk t = brk ?s1 \<Longrightarrow> brk_limit t = brk_limit s \<Longrightarrow>
              sbrk t (0 - n - sizeof_header_t) = (brk ?s1, t\<lparr>brk := ?b\<rparr>)"
  proof -
    fix t :: alloc_state assume t: "brk t = brk ?s1" "brk_limit t = brk_limit s"
    have ut: "uint (brk t) = uint ?b + sint ?x" using t(1) u1 by simp
    have n0: "0 \<le> uint (brk t) + sint (0 - n - sizeof_header_t)"
      using ut sn uint_ge_0[of ?b] by linarith
    have n1: "uint (brk t) + sint (0 - n - sizeof_header_t) \<le> uint (brk_limit t)"
      using ut sn ble t(2) by simp
    have "brk t + (0 - n - sizeof_header_t) = ?b" using t(1) a(5) by simp
    with sbrk_ok[OF n0 n1] t(1) show "sbrk t (0 - n - sizeof_header_t) = (brk ?s1, t\<lparr>brk := ?b\<rparr>)"
      by simp
  qed
  have c: "chain (hdr s) (head s) ps" using inv by (simp add: heap_inv_def)
  show ?thesis
  proof (cases "ps = []")
    case True
    with inv have ht: "head s = 0" "tail s = 0" by (simp_all add: heap_inv_def)
    have h1: "head ?s1 = ?b" "tail ?s1 = ?b" using a(2,7) True by simp_all
    let ?t = "?s1\<lparr>head := 0, tail := 0\<rparr>"
    have "sbrk ?t (0 - s_size (hdr ?t ?b) - sizeof_header_t) = (brk ?s1, ?t\<lparr>brk := ?b\<rparr>)"
      using rel[of ?t] hb a(4) by simp
    then have "free ?s1 (?b + sizeof_header_t) = Some (?t\<lparr>brk := ?b\<rparr>)"
      using b(2) sb0 tr h1 hd by (simp add: free_def)
    with True ht a(4) show ?thesis by simp
  next
    case False
    then have ps: "ps = butlast ps @ [last ps]" by simp
    with inv False have tl: "tail s = last ps" by (simp add: heap_inv_def)
    have lb: "last ps \<noteq> ?b" using heap_inv_brk_notin[OF inv] False last_in_set by metis
    have h1: "head ?s1 = head s" "tail ?s1 = ?b" using a(2,7) False by simp_all
    have hn: "head s \<noteq> ?b"
      using chain_hd[OF c False] heap_inv_brk_notin[OF inv] False hd_in_set by metis
    have "chain (hdr ?s1) (head ?s1) (butlast ps @ [last ps, ?b])"
      using a(1) ps by (metis append.assoc append_Cons append_Nil)
    note c1 = this
    let ?t = "?s1\<lparr>tail := last ps, hdr := (hdr ?s1)(last ps := (hdr ?s1 (last ps))\<lparr>s_next := 0\<rparr>)\<rparr>"
    have fl: "free_loop ?s1 (head ?s1) = Some ?t" using free_loop_chain[OF c1 a(2)] .
    have "sbrk ?t (0 - s_size (hdr ?t ?b) - sizeof_header_t) = (brk ?s1, ?t\<lparr>brk := ?b\<rparr>)"
      using rel[of ?t] hb a(4) lb by simp
    then have fr: "free ?s1 (?b + sizeof_header_t) = Some (?t\<lparr>brk := ?b\<rparr>)"
      using b(2) sb0 tr h1 hn hd fl by (simp add: free_def)
    have "chain (hdr ?t) (head ?s1) (butlast ps @ [last ps])"
      using chain_drop_last[OF c1] by simp
    then have ch: "chain (hdr (?t\<lparr>brk := ?b\<rparr>)) (head (?t\<lparr>brk := ?b\<rparr>)) ps"
      using ps by simp
    have "\<forall>x\<in>set ps. s_size (hdr (?t\<lparr>brk := ?b\<rparr>) x) = s_size (hdr s x) \<and>
                        s_is_free (hdr (?t\<lparr>brk := ?b\<rparr>) x) = s_is_free (hdr s x)"
      using a(6) by auto
    with fr ch h1 tl a(4) show ?thesis by simp
  qed
qed

lemma last_split_unique:
  assumes "distinct ps" and "ps = qs @ q # rs" and "q = last ps"
  shows "rs = []"
proof (rule ccontr)
  assume "rs \<noteq> []"
  with assms(2) have "last ps = last rs" by simp
  with assms(3) \<open>rs \<noteq> []\<close> have "q \<in> set rs" using last_in_set by metis
  with assms(1,2) show False by simp
qed

lemma tiles_before:
  assumes "tiles h a (xs @ p # ys) b" and "q \<in> set ys"
  shows "uint p + 24 + uint (s_size (h p)) \<le> uint q"
proof -
  from assms(1) obtain m where "tiles h m (p # ys) b" unfolding tiles_append by blast
  then have "tiles h (uint p + 24 + uint (s_size (h p))) ys b" by auto
  from tiles_mem[OF this assms(2)] show ?thesis by simp
qed

lemma blocks_disjoint:
  assumes inv: "heap_inv s ps" and p: "p \<in> set ps" and q: "q \<in> set ps" and ne: "p \<noteq> q"
  shows "uint p + 24 + uint (s_size (hdr s p)) \<le> uint q \<or>
         uint q + 24 + uint (s_size (hdr s q)) \<le> uint p"
proof -
  from p have "ps \<noteq> []" by auto
  with inv have t: "tiles (hdr s) (uint (hd ps)) ps (uint (brk s))" by (simp add: heap_inv_def)
  from p obtain xs ys where ps: "ps = xs @ p # ys" by (auto simp add: in_set_conv_decomp)
  from q ps ne have "q \<in> set xs \<or> q \<in> set ys" by auto
  then show ?thesis
  proof
    assume "q \<in> set ys"
    with t ps tiles_before[of "hdr s" _ xs p ys _ q] show ?thesis by simp
  next
    assume "q \<in> set xs"
    then obtain us vs where xs: "xs = us @ q # vs" by (auto simp add: in_set_conv_decomp)
    with ps have "ps = us @ q # (vs @ p # ys)" by simp
    moreover have "p \<in> set (vs @ p # ys)" by simp
    ultimately show ?thesis using t tiles_before[of "hdr s" _ us q "vs @ p # ys" _ p] by simp
  qed
qed

section \<open>Requests whose total size does not wrap\<close>

text \<open>
  For a request with \<^verbatim>\<open>sizeof(header_t) + size\<close> below \<open>2 ^ 63\<close> a non-null result of
  \<open>malloc\<close> is a block of the chain of a well-formed heap, marked in use, with a stored
  size that covers the request; the payload bytes and the blocks that were in the chain
  stay.
\<close>

lemma malloc_allocates:
  assumes inv: "heap_inv s ps" and sz: "uint n + 24 < 2 ^ 63"
    and m: "malloc s n = Some (p, s1)" and p: "p \<noteq> 0"
  shows "\<exists>ps1. heap_inv s1 ps1 \<and> set ps \<subseteq> set ps1 \<and> p - sizeof_header_t \<in> set ps1 \<and>
           s_is_free (hdr s1 (p - sizeof_header_t)) = 0 \<and>
           n \<le> s_size (hdr s1 (p - sizeof_header_t)) \<and> mem s1 = mem s"
proof (cases "n = 0")
  case True
  with m p show ?thesis by (simp add: malloc_def)
next
  case False
  from inv False show ?thesis
  proof (cases rule: malloc_cases)
    case (reuse q)
    let ?s1 = "s\<lparr>hdr := (hdr s)(q := (hdr s q)\<lparr>s_is_free := 0\<rparr>)\<rparr>"
    from reuse(4) m have e: "s1 = ?s1" "p = q + sizeof_header_t" by simp_all
    have "heap_inv ?s1 ps" using inv by (rule heap_inv_reuse)
    moreover have "n \<le> s_size (hdr s q)" using reuse(3) by (simp add: fits_def)
    ultimately have "heap_inv s1 ps \<and> set ps \<subseteq> set ps \<and> p - sizeof_header_t \<in> set ps \<and>
           s_is_free (hdr s1 (p - sizeof_header_t)) = 0 \<and>
           n \<le> s_size (hdr s1 (p - sizeof_header_t)) \<and> mem s1 = mem s"
      using e reuse(2) by simp
    then show ?thesis by blast
  next
    case refused
    with m p show ?thesis by simp
  next
    case grow
    from grow(3) m have e: "s1 = appended s n" "p = brk s + sizeof_header_t" by simp_all
    have "heap_inv (appended s n) (ps @ [brk s])"
      using heap_inv_grow[OF inv False sz appended_brk(2)[OF inv sz grow(2)]] .
    moreover note appended_header[OF inv, of n] appended_chain(3)[OF inv, of n]
    ultimately have "heap_inv s1 (ps @ [brk s]) \<and> set ps \<subseteq> set (ps @ [brk s]) \<and>
           p - sizeof_header_t \<in> set (ps @ [brk s]) \<and>
           s_is_free (hdr s1 (p - sizeof_header_t)) = 0 \<and>
           n \<le> s_size (hdr s1 (p - sizeof_header_t)) \<and> mem s1 = mem s"
      using e by auto
    then show ?thesis by blast
  qed
qed

text \<open>
  \<open>calloc\<close> returns \<^verbatim>\<open>NULL\<close> without calling \<open>malloc\<close> when an argument is 0 or the
  product does not fit 64 bits. Otherwise, for a product whose total size does not wrap,
  its result is the block and the state of \<open>malloc\<close>, with the bytes of the block set
  to 0 and every other byte as \<open>malloc\<close> left it.
\<close>

lemma calloc_refuses:
  assumes "num = 0 \<or> nsize = 0 \<or> 2 ^ 64 \<le> unat num * unat nsize"
  shows "calloc s num nsize = Some (0, s)"
proof (cases "num = 0 \<or> nsize = 0")
  case True then show ?thesis by (simp add: calloc_def)
next
  case False
  with assms mul_overflow_check[of num nsize] show ?thesis by (simp add: calloc_def Let_def)
qed

lemma calloc_zeroes:
  assumes inv: "heap_inv s ps" and nz: "num \<noteq> 0" "nsize \<noteq> 0"
    and fit: "unat num * unat nsize < 2 ^ 64" and sz: "uint (num * nsize) + 24 < 2 ^ 63"
  shows "\<exists>r s1. malloc s (num * nsize) = Some (r, s1) \<and>
           (r = 0 \<longrightarrow> s1 = s \<and> calloc s num nsize = Some (0, s)) \<and>
           (r \<noteq> 0 \<longrightarrow>
              calloc s num nsize =
                Some (r, s1\<lparr>mem := memset (mem s) r 0 (num * nsize)\<rparr>) \<and>
              (\<exists>ps1. heap_inv s1 ps1 \<and> r - sizeof_header_t \<in> set ps1 \<and>
                 s_is_free (hdr s1 (r - sizeof_header_t)) = 0 \<and>
                 num * nsize \<le> s_size (hdr s1 (r - sizeof_header_t))) \<and>
              (\<forall>i. i < num * nsize \<longrightarrow> memset (mem s) r 0 (num * nsize) (r + i) = 0) \<and>
              (\<forall>a. \<not> a - r < num * nsize \<longrightarrow> memset (mem s) r 0 (num * nsize) a = mem s a))"
proof -
  from malloc_total[OF inv] obtain r s1 where m: "malloc s (num * nsize) = Some (r, s1)"
    by blast
  from fit mul_overflow_check[OF nz(1), of nsize] have eq: "nsize = (num * nsize) div num"
    by simp
  show ?thesis
  proof (cases "r = 0")
    case True
    with m malloc_null_unchanged[OF inv] have "s1 = s" by blast
    with m True nz eq have "calloc s num nsize = Some (0, s)" by (simp add: calloc_def Let_def)
    with m True \<open>s1 = s\<close> show ?thesis by blast
  next
    case False
    from malloc_allocates[OF inv sz m False] obtain ps1 where
      a: "heap_inv s1 ps1" "r - sizeof_header_t \<in> set ps1"
        "s_is_free (hdr s1 (r - sizeof_header_t)) = 0"
        "num * nsize \<le> s_size (hdr s1 (r - sizeof_header_t))" "mem s1 = mem s"
      by blast
    have "calloc s num nsize = Some (r, s1\<lparr>mem := memset (mem s) r 0 (num * nsize)\<rparr>)"
      using m nz eq False a(5) by (simp add: calloc_def Let_def)
    moreover have "\<forall>i. i < num * nsize \<longrightarrow> memset (mem s) r 0 (num * nsize) (r + i) = 0"
      by (simp add: memset_def)
    moreover have "\<forall>a. \<not> a - r < num * nsize \<longrightarrow> memset (mem s) r 0 (num * nsize) a = mem s a"
      by (simp add: memset_def)
    ultimately show ?thesis using m False a(1-4) by blast
  qed
qed

text \<open>
  \<open>realloc\<close> to a larger size that does not wrap: the result is the block of the inner
  \<open>malloc\<close>, in the chain and in use after the call; the old block is marked free or
  has left the chain; the first old-stored-size bytes of the new payload are the old
  payload, every other byte is untouched.
\<close>

lemma realloc_moves_contents:
  assumes inv: "heap_inv s ps" and p: "p \<in> set ps" and lt: "s_size (hdr s p) < sz"
    and sz: "uint sz + 24 < 2 ^ 63"
    and m: "malloc s sz = Some (ret, s1)" and r: "ret \<noteq> 0"
  shows "\<exists>s3 ps3. realloc s (p + sizeof_header_t) sz = Some (ret, s3) \<and>
           free (s1\<lparr>mem := memcpy (mem s1) ret (p + sizeof_header_t) (s_size (hdr s p))\<rparr>)
                (p + sizeof_header_t) = Some s3 \<and>
           heap_inv s3 ps3 \<and> ret - sizeof_header_t \<in> set ps3 \<and>
           s_is_free (hdr s3 (ret - sizeof_header_t)) = 0 \<and>
           sz \<le> s_size (hdr s3 (ret - sizeof_header_t)) \<and>
           (p \<notin> set ps3 \<or> s_is_free (hdr s3 p) = 1) \<and>
           (\<forall>i. i < s_size (hdr s p) \<longrightarrow> mem s3 (ret + i) = mem s (p + sizeof_header_t + i)) \<and>
           (\<forall>a. \<not> a - ret < s_size (hdr s p) \<longrightarrow> mem s3 a = mem s a) \<and>
           ret \<noteq> p + sizeof_header_t"
proof -
  note k = malloc_keeps_chain[OF inv p lt m r]
  let ?q = "ret - sizeof_header_t"
  let ?s2 = "s1\<lparr>mem := memcpy (mem s1) ret (p + sizeof_header_t) (s_size (hdr s p))\<rparr>"
  from malloc_allocates[OF inv sz m r] obtain ps1 where
    a: "heap_inv s1 ps1" "set ps \<subseteq> set ps1" "?q \<in> set ps1"
      "s_is_free (hdr s1 ?q) = 0" "sz \<le> s_size (hdr s1 ?q)"
    by blast
  have i2: "heap_inv ?s2 ps1" using a(1) by simp
  from a(2) p have p1: "p \<in> set ps1" by blast
  have qp: "?q \<noteq> p" using k(4) by auto
  from free_block_inv[OF i2 p1] obtain s3 where
    f: "free ?s2 (p + sizeof_header_t) = Some s3" and ms: "mem s3 = mem ?s2"
    and c: "if p = last ps1 then heap_inv s3 (butlast ps1) \<and> brk s3 = p
            else heap_inv s3 ps1 \<and> brk s3 = brk ?s2 \<and> s_is_free (hdr s3 p) = 1"
    by blast
  have q3: "s_is_free (hdr s3 ?q) = 0" "sz \<le> s_size (hdr s3 ?q)"
    using free_block_frame[OF i2 p1 f, of ?q] qp a(4,5) by simp_all
  have d: "distinct ps1" using heap_inv_chain_integrity(2)[OF a(1)] .
  have "\<exists>ps3. heap_inv s3 ps3 \<and> ?q \<in> set ps3 \<and> (p \<notin> set ps3 \<or> s_is_free (hdr s3 p) = 1)"
  proof (cases "p = last ps1")
    case True
    from p1 have ne: "ps1 \<noteq> []" by auto
    then have ps1: "ps1 = butlast ps1 @ [p]" using True by simp
    with d have "distinct (butlast ps1 @ [p])" by simp
    then have pn: "p \<notin> set (butlast ps1)" by simp
    have "set ps1 = insert p (set (butlast ps1))" using arg_cong[OF ps1, of set] by simp
    with a(3) qp have "?q \<in> set (butlast ps1)" by auto
    with True c pn show ?thesis by auto
  next
    case False
    with c a(3) show ?thesis by auto
  qed
  then obtain ps3 where g: "heap_inv s3 ps3" "?q \<in> set ps3"
    "p \<notin> set ps3 \<or> s_is_free (hdr s3 p) = 1" by blast
  from lt have sz0: "sz \<noteq> 0" and nle: "\<not> sz \<le> s_size (hdr s p)"
    by (auto simp add: word_less_nat_alt word_le_nat_alt)
  have "realloc s (p + sizeof_header_t) sz = Some (ret, s3)"
    using heap_inv_block(4)[OF inv p] sz0 nle m r k(3) f
    by (simp add: realloc_def Let_def)
  moreover have "\<forall>i. i < s_size (hdr s p) \<longrightarrow> mem s3 (ret + i) = mem s (p + sizeof_header_t + i)"
    using ms k(2) by (simp add: memcpy_def)
  moreover have "\<forall>a. \<not> a - ret < s_size (hdr s p) \<longrightarrow> mem s3 a = mem s a"
    using ms k(2) by (simp add: memcpy_def)
  ultimately show ?thesis using f k(4) g q3 by blast
qed

text \<open>
  \<open>malloc\<close>, \<open>free\<close> of its result and \<open>malloc\<close> of the same size, for a size that
  does not wrap: all three calls return and the two \<open>malloc\<close> calls return the same
  address. A non-null first result is a block of the chain, in use and large enough;
  after the \<open>free\<close> either the break stands at its header or it is in the chain and free.
\<close>

lemma malloc_free_malloc_core:
  assumes "heap_inv s ps" and "n \<noteq> 0" and "uint n + 24 < 2 ^ 63"
  shows "\<exists>p s1 s2 s3. malloc s n = Some (p, s1) \<and> free s1 p = Some s2 \<and>
           malloc s2 n = Some (p, s3) \<and>
           (p = 0 \<or> brk s2 = p - sizeof_header_t \<or> fits (hdr s2) n (p - sizeof_header_t))"
  using assms(1,2)
proof (cases rule: malloc_cases)
  case refused
  then have "malloc s n = Some (0, s) \<and> free s 0 = Some s \<and> malloc s n = Some (0, s)"
    by (simp add: free_null)
  then show ?thesis by blast
next
  case grow
  from free_appended[OF assms(1) grow(2)] obtain s2 where
    f: "free (appended s n) (brk s + sizeof_header_t) = Some s2"
    and e: "head s2 = head s" "tail s2 = tail s" "brk s2 = brk s" "brk_limit s2 = brk_limit s"
    and c: "chain (hdr s2) (head s2) ps"
    and fr: "\<forall>x\<in>set ps. s_size (hdr s2 x) = s_size (hdr s x) \<and>
                        s_is_free (hdr s2 x) = s_is_free (hdr s x)"
    by blast
  note b = heap_inv_brk[OF assms(1)]
  have fi: "find (fits (hdr s2) n) ps = None"
    using find_fits_cong[of ps "hdr s2" "hdr s" n] fr grow(1) by simp
  have gr: "0 \<le> uint (brk s2) + sint (sizeof_header_t + n)"
    "uint (brk s2) + sint (sizeof_header_t + n) \<le> uint (brk_limit s2)"
    using grow(2) sbrk_granted_iff[OF b(1), of "sizeof_header_t + n"] e(3,4) by simp_all
  have "brk s2 \<noteq> - 1" using b(1) e(3) by simp
  from malloc_grow[OF c assms(2) fi gr this] e(3)
  have "malloc s2 n = Some (brk s + sizeof_header_t, appended s2 n)" by simp
  with grow(3) f e(3) show ?thesis by auto
next
  case (reuse q)
  let ?s1 = "s\<lparr>hdr := (hdr s)(q := (hdr s q)\<lparr>s_is_free := 0\<rparr>)\<rparr>"
  have inv1: "heap_inv ?s1 ps" using assms(1) by (rule heap_inv_reuse)
  from free_block_inv[OF inv1 reuse(2)] obtain s2 where
    f: "free ?s1 (q + sizeof_header_t) = Some s2"
    and l2: "brk_limit s2 = brk_limit s"
    and k: "if q = last ps then heap_inv s2 (butlast ps) \<and> brk s2 = q
            else heap_inv s2 ps \<and> brk s2 = brk ?s1 \<and> s_is_free (hdr s2 q) = 1"
    by auto
  have sz: "\<And>x. s_size (hdr s2 x) = s_size (hdr s x)"
    using free_block_frame(1)[OF inv1 reuse(2) f] by simp
  have fr: "\<And>x. x \<noteq> q \<Longrightarrow> s_is_free (hdr s2 x) = s_is_free (hdr s x)"
    using free_block_frame(2)[OF inv1 reuse(2) f] by simp
  from find_first_split[OF reuse(1)] obtain qs rs where
    ps: "ps = qs @ q # rs" and nf: "\<forall>x\<in>set qs. \<not> fits (hdr s) n x" by blast
  have d: "distinct ps" using heap_inv_chain_integrity(2)[OF assms(1)] .
  with ps have qn: "q \<notin> set qs" by simp
  have nf2: "\<forall>x\<in>set qs. \<not> fits (hdr s2) n x"
  proof
    fix x assume x: "x \<in> set qs"
    with qn have "x \<noteq> q" by auto
    with sz[of x] fr[of x] nf x show "\<not> fits (hdr s2) n x" by (simp add: fits_def)
  qed
  have q24: "q + sizeof_header_t - sizeof_header_t = q" by simp
  show ?thesis
  proof (cases "q = last ps")
    case False
    with k have i2: "heap_inv s2 ps" and fq: "s_is_free (hdr s2 q) = 1" by simp_all
    from reuse(3) sz[of q] fq have "fits (hdr s2) n q" by (simp add: fits_def)
    with nf2 have fi: "find (fits (hdr s2) n) ps = Some q" unfolding ps by (intro find_first_at)
    have c2: "chain (hdr s2) (head s2) ps" using i2 by (simp add: heap_inv_def)
    from malloc_reuse[OF c2 assms(2) fi] reuse(4) f \<open>fits (hdr s2) n q\<close> q24
    show ?thesis by auto
  next
    case True
    with k have i2: "heap_inv s2 (butlast ps)" and b2: "brk s2 = q" by simp_all
    from last_split_unique[OF d ps True] ps have bl: "butlast ps = qs" by simp
    have fi: "find (fits (hdr s2) n) (butlast ps) = None"
      using nf2 bl by (simp add: find_None_iff)
    have c2: "chain (hdr s2) (head s2) (butlast ps)" using i2 by (simp add: heap_inv_def)
    have e: "uint q + 24 + uint (s_size (hdr s q)) \<le> uint (brk s)"
      using heap_inv_block(1)[OF assms(1) reuse(2)] .
    have lim: "uint (brk s) \<le> uint (brk_limit s)" "uint (brk_limit s) < 2 ^ 63"
      using assms(1) by (simp_all add: heap_inv_def)
    from reuse(3) have "uint n \<le> uint (s_size (hdr s q))"
      by (simp add: fits_def word_le_def)
    with e lim have le: "uint q + 24 + uint n \<le> uint (brk_limit s)" by linarith
    with lim(2) have "uint n + 24 < 2 ^ 63" using uint_ge_0[of q] unfolding p63 by linarith
    then have sg: "sint (sizeof_header_t + n) = uint n + 24" by (rule sint_grow)
    have g0: "0 \<le> uint (brk s2) + sint (sizeof_header_t + n)"
      using sg b2 uint_ge_0[of q] uint_ge_0[of n] by simp
    have g1: "uint (brk s2) + sint (sizeof_header_t + n) \<le> uint (brk_limit s2)"
      using sg b2 l2 le by simp
    from malloc_grow[OF c2 assms(2) fi g0 g1 heap_inv_brk(1)[OF i2]] b2
    have "malloc s2 n = Some (q + sizeof_header_t, appended s2 n)" by simp
    with reuse(4) f b2 q24 show ?thesis by auto
  qed
qed

lemma malloc_free_malloc_same_address:
  assumes "heap_inv s ps" and "n \<noteq> 0" and "uint n + 24 < 2 ^ 63"
  shows "\<exists>p s1 s2 s3. malloc s n = Some (p, s1) \<and> free s1 p = Some s2 \<and>
           malloc s2 n = Some (p, s3) \<and>
           (p = 0 \<or> brk s2 = p - sizeof_header_t \<or> fits (hdr s2) n (p - sizeof_header_t)) \<and>
           (p \<noteq> 0 \<longrightarrow>
              (\<exists>ps1. heap_inv s1 ps1 \<and> p - sizeof_header_t \<in> set ps1 \<and>
                 s_is_free (hdr s1 (p - sizeof_header_t)) = 0 \<and>
                 n \<le> s_size (hdr s1 (p - sizeof_header_t))))"
proof -
  from malloc_free_malloc_core[OF assms] obtain p s1 s2 s3 where
    c: "malloc s n = Some (p, s1)" "free s1 p = Some s2" "malloc s2 n = Some (p, s3)"
      "p = 0 \<or> brk s2 = p - sizeof_header_t \<or> fits (hdr s2) n (p - sizeof_header_t)"
    by blast
  have "p \<noteq> 0 \<longrightarrow>
          (\<exists>ps1. heap_inv s1 ps1 \<and> p - sizeof_header_t \<in> set ps1 \<and>
             s_is_free (hdr s1 (p - sizeof_header_t)) = 0 \<and>
             n \<le> s_size (hdr s1 (p - sizeof_header_t)))"
    using malloc_allocates[OF assms(1,3) c(1)] by blast
  with c show ?thesis by blast
qed

text \<open>
  \<^verbatim>\<open>realloc(block, 0)\<close> is \<^verbatim>\<open>malloc(0)\<close>: \<^verbatim>\<open>NULL\<close>, and the state is untouched.
  A block that stays in use is not handed out by a \<open>malloc\<close> whose size does not wrap,
  and the heap such a call leaves is well-formed and still holds the block in use, so
  this repeats over any number of such calls.
\<close>

lemma realloc_zero: "realloc s block 0 = Some (0, s)"
  by (simp add: realloc_def malloc_def)

lemma malloc_spares_live_block:
  assumes inv: "heap_inv s ps" and p: "p \<in> set ps" and u: "s_is_free (hdr s p) = 0"
    and sz: "uint n + 24 < 2 ^ 63" and m: "malloc s n = Some (r, s')"
  shows "r \<noteq> p + sizeof_header_t \<and> s_is_free (hdr s' p) = 0 \<and>
         s_size (hdr s' p) = s_size (hdr s p) \<and>
         (\<exists>ps'. heap_inv s' ps' \<and> p \<in> set ps')"
proof -
  note nz = heap_inv_block(4)[OF inv p]
  from malloc_inv[OF inv sz m] p have i: "\<exists>ps'. heap_inv s' ps' \<and> p \<in> set ps'" by auto
  show ?thesis
  proof (cases "n = 0")
    case True
    with m nz u i show ?thesis by (simp add: malloc_def)
  next
    case False
    from inv False show ?thesis
    proof (cases rule: malloc_cases)
      case (reuse q)
      from reuse(3) u have "q \<noteq> p" by (auto simp: fits_def)
      with reuse(4) m u i show ?thesis by simp
    next
      case refused
      with m nz u i show ?thesis by simp
    next
      case grow
      from heap_inv_brk_notin[OF inv] p have "brk s \<noteq> p" by auto
      with grow(3) m u i show ?thesis by (auto simp add: appended_def)
    qed
  qed
qed

section \<open>The claims\<close>

text \<open>
  C6. For every non-null capability and every new size greater than 0 that the stored
  size of its header already covers, \<open>realloc\<close> returns the same address and changes
  nothing: the whole state (header fields, payload bytes, chain, break) is the state
  before the call, however much smaller the new size is.
\<close>

theorem realloc_in_place:
  "block \<noteq> 0 \<Longrightarrow> sz \<noteq> 0 \<Longrightarrow> sz \<le> s_size (hdr s (block - sizeof_header_t)) \<Longrightarrow>
   realloc s block sz = Some (block, s)"
  by (simp add: realloc_def)

theorem realloc_in_place_witness:
  "realloc two_blocks 0x1018 10 = Some (0x1018, two_blocks)"
proof -
  have "(10 :: size_t) \<le> s_size (hdr two_blocks (0x1018 - sizeof_header_t))"
    by (simp add: two_blocks_def sizeof_header_t_def)
  then show ?thesis
    using realloc_in_place [of "0x1018" 10 two_blocks] by simp
qed

text \<open>
  C4. In a well-formed heap, for a non-null block whose stored size is smaller than the
  new size (itself not 0): when the \<open>malloc\<close> inside \<open>realloc\<close> returns
  \<^verbatim>\<open>NULL\<close>, \<open>realloc\<close> returns \<^verbatim>\<open>NULL\<close> and the state after the call is the state
  before it, so the old block is not deallocated and its header fields and payload
  bytes are what they were.
\<close>

theorem realloc_failure_keeps_block:
  assumes "heap_inv s ps" and "block \<noteq> 0" and "sz \<noteq> 0"
    and "s_size (hdr s (block - sizeof_header_t)) < sz"
    and "malloc s sz = Some (0, s1)"
  shows "realloc s block sz = Some (0, s)"
proof -
  have "s1 = s" using assms(1,5) by (rule malloc_null_unchanged)
  with assms show ?thesis by (simp add: realloc_def not_le[symmetric])
qed

theorem realloc_failure_keeps_block_witness:
  "heap_inv exhausted_block [0x1000] \<and>
   s_size (hdr exhausted_block (0x1018 - sizeof_header_t)) < 200 \<and>
   malloc exhausted_block 200 = Some (0, exhausted_block) \<and>
   realloc exhausted_block 0x1018 200 = Some (0, exhausted_block)"
proof -
  have i: "heap_inv exhausted_block [0x1000]"
    by (simp add: heap_inv_def exhausted_block_def sizeof_header_t_def)
  have l: "s_size (hdr exhausted_block (0x1018 - sizeof_header_t)) < 200"
    by (simp add: exhausted_block_def sizeof_header_t_def)
  have m: "malloc exhausted_block 200 = Some (0, exhausted_block)"
    by (simp add: malloc_def exhausted_block_def get_free_block_def
        get_free_block_loop.simps sbrk_def sizeof_header_t_def Let_def)
  have "realloc exhausted_block 0x1018 200 = Some (0, exhausted_block)"
    using realloc_failure_keeps_block [OF i _ _ l m] by simp
  with i l m show ?thesis by simp
qed

text \<open>
  C5. In a well-formed heap, when \<open>malloc\<close> hands out a block that already was in the
  chain (a reuse), that block was free with a stored size of at least the request, and
  after the call its stored size is the one it had: the header is marked in use, its
  size field is not lowered to the request, and the break has not moved. The example
  runs \<^verbatim>\<open>malloc(100)\<close>, \<^verbatim>\<open>malloc(1)\<close>, \<^verbatim>\<open>free\<close> of the first block and
  \<^verbatim>\<open>malloc(10)\<close>: the last call returns the first block again, with stored size 100.
\<close>

theorem malloc_reuse_keeps_size:
  assumes "heap_inv s ps" and "sz \<noteq> 0" and "malloc s sz = Some (r, s')"
    and "r - sizeof_header_t \<in> set ps"
  shows "fits (hdr s) sz (r - sizeof_header_t) \<and>
         s_size (hdr s' (r - sizeof_header_t)) = s_size (hdr s (r - sizeof_header_t)) \<and>
         s_is_free (hdr s' (r - sizeof_header_t)) = 0 \<and>
         brk s' = brk s"
  using assms(1,2)
proof (cases rule: malloc_cases)
  case (reuse q)
  with assms(3) show ?thesis by auto
next
  case refused
  with assms(3,4) null_header_notin[OF assms(1)] show ?thesis by simp
next
  case grow
  with assms(3,4) heap_inv_brk_notin[OF assms(1)] show ?thesis by auto
qed

theorem malloc_reuse_keeps_size_witness:
  "malloc empty_heap 100 = Some (0x1018, one_block) \<and>
   malloc one_block 1 = Some (0x1094, two_blocks) \<and>
   free two_blocks 0x1018 = Some first_freed \<and>
   malloc first_freed 10 = Some (0x1018, two_blocks) \<and>
   s_size (hdr first_freed 0x1000) = 100 \<and>
   s_size (hdr two_blocks 0x1000) = 100"
proof -
  have a: "malloc empty_heap 100 = Some (0x1018, one_block)"
    by (simp add: malloc_def empty_heap_def one_block_def get_free_block_def
        get_free_block_loop.simps sbrk_def sizeof_header_t_def Let_def)
  have b: "malloc one_block 1 = Some (0x1094, two_blocks)"
    by (simp add: malloc_def two_blocks_def one_block_def get_free_block_def
        get_free_block_loop.simps sbrk_def sizeof_header_t_def Let_def)
  have c: "free two_blocks 0x1018 = Some first_freed"
    by (simp add: free_def two_blocks_def first_freed_def sbrk_def sizeof_header_t_def Let_def)
  have d: "malloc first_freed 10 = Some (0x1018, two_blocks)"
    by (simp add: malloc_def first_freed_def two_blocks_def get_free_block_def
        get_free_block_loop.simps sbrk_def sizeof_header_t_def Let_def)
  have i: "heap_inv first_freed [0x1000, 0x107C]"
    by (simp add: heap_inv_def first_freed_def sizeof_header_t_def)
  have m: "(0x1018 :: ptr) - sizeof_header_t \<in> set [0x1000, 0x107C]"
    by (simp add: sizeof_header_t_def)
  have "s_size (hdr two_blocks (0x1018 - sizeof_header_t)) =
        s_size (hdr first_freed (0x1018 - sizeof_header_t))"
    using malloc_reuse_keeps_size [OF i _ d m] by simp
  moreover have "s_size (hdr first_freed 0x1000) = 100" by (simp add: first_freed_def)
  ultimately have "s_size (hdr two_blocks 0x1000) = 100" by (simp add: sizeof_header_t_def)
  with a b c d show ?thesis by (simp add: first_freed_def)
qed

text \<open>
  C1 (amended). In a well-formed heap and for a size greater than 0: when some block of
  the chain is free with a stored size of at least the request, \<open>malloc\<close> returns the
  payload address of the first such block in chain order, clears its free mark and
  changes nothing else (the break stays). When no block fits, it asks \<^verbatim>\<open>sbrk\<close> for
  \<^verbatim>\<open>sizeof(header_t) + size\<close> bytes; if the request is refused it returns
  \<^verbatim>\<open>NULL\<close> and the state is unchanged; if it is granted and the sum fits the signed
  increment, the break has grown by exactly that many bytes, a header
  \<open>(size, is_free = 0, next = NULL)\<close> stands at the old break, the chain is the old chain
  with that header appended at the tail, and the payload address behind it is returned.
\<close>

theorem malloc_first_fit_or_grow:
  assumes "heap_inv s ps" and "sz \<noteq> 0"
  shows "((\<exists>p\<in>set ps. fits (hdr s) sz p) \<longrightarrow>
            (\<exists>qs q rs. ps = qs @ q # rs \<and> (\<forall>x\<in>set qs. \<not> fits (hdr s) sz x) \<and>
               fits (hdr s) sz q \<and>
               malloc s sz = Some (q + sizeof_header_t,
                                   s\<lparr>hdr := (hdr s)(q := (hdr s q)\<lparr>s_is_free := 0\<rparr>)\<rparr>))) \<and>
         ((\<forall>p\<in>set ps. \<not> fits (hdr s) sz p) \<and> fst (sbrk s (sizeof_header_t + sz)) = - 1 \<longrightarrow>
            malloc s sz = Some (0, s)) \<and>
         ((\<forall>p\<in>set ps. \<not> fits (hdr s) sz p) \<and> fst (sbrk s (sizeof_header_t + sz)) \<noteq> - 1 \<and>
          uint sz + 24 < 2 ^ 63 \<longrightarrow>
            malloc s sz = Some (brk s + sizeof_header_t, appended s sz) \<and>
            uint (brk (appended s sz)) = uint (brk s) + 24 + uint sz \<and>
            hdr (appended s sz) (brk s) = \<lparr>s_size = sz, s_is_free = 0, s_next = 0\<rparr> \<and>
            heap_inv (appended s sz) (ps @ [brk s]))"
  using assms
proof (cases rule: malloc_cases)
  case (reuse q)
  from find_first_split[OF reuse(1)] reuse(4)
  have "\<exists>qs q rs. ps = qs @ q # rs \<and> (\<forall>x\<in>set qs. \<not> fits (hdr s) sz x) \<and>
               fits (hdr s) sz q \<and>
               malloc s sz = Some (q + sizeof_header_t,
                                   s\<lparr>hdr := (hdr s)(q := (hdr s q)\<lparr>s_is_free := 0\<rparr>)\<rparr>)"
    by blast
  moreover from reuse(2,3) have "\<not> (\<forall>p\<in>set ps. \<not> fits (hdr s) sz p)" by blast
  ultimately show ?thesis by blast
next
  case refused
  then have "\<not> (\<exists>p\<in>set ps. fits (hdr s) sz p)" by (simp add: find_None_iff)
  with refused show ?thesis by simp
next
  case grow
  then have n: "\<not> (\<exists>p\<in>set ps. fits (hdr s) sz p)" by (simp add: find_None_iff)
  have "uint sz + 24 < 2 ^ 63 \<Longrightarrow>
        uint (brk (appended s sz)) = uint (brk s) + 24 + uint sz \<and>
        hdr (appended s sz) (brk s) = \<lparr>s_size = sz, s_is_free = 0, s_next = 0\<rparr> \<and>
        heap_inv (appended s sz) (ps @ [brk s])"
    using appended_brk[OF assms(1) _ grow(2)] appended_header[OF assms(1)]
      heap_inv_grow[OF assms(1,2)] by blast
  with n grow show ?thesis by blast
qed

theorem malloc_first_fit_or_grow_witness:
  "(\<exists>qs q rs. [0x1000, 0x107C] = qs @ q # rs \<and> (\<forall>x\<in>set qs. \<not> fits (hdr first_freed) 10 x) \<and>
      fits (hdr first_freed) 10 q \<and>
      malloc first_freed 10 = Some (q + sizeof_header_t,
        first_freed\<lparr>hdr := (hdr first_freed)(q := (hdr first_freed q)\<lparr>s_is_free := 0\<rparr>)\<rparr>)) \<and>
   malloc first_freed 10 = Some (0x1018, two_blocks) \<and>
   malloc exhausted_block 200 = Some (0, exhausted_block) \<and>
   malloc one_block 1 = Some (brk one_block + sizeof_header_t, appended one_block 1) \<and>
   uint (brk (appended one_block 1)) = uint (brk one_block) + 24 + uint (1 :: size_t) \<and>
   hdr (appended one_block 1) (brk one_block) = \<lparr>s_size = 1, s_is_free = 0, s_next = 0\<rparr> \<and>
   heap_inv (appended one_block 1) ([0x1000] @ [brk one_block]) \<and>
   appended one_block 1 = two_blocks"
proof -
  have i1: "heap_inv first_freed [0x1000, 0x107C]"
    by (simp add: heap_inv_def first_freed_def sizeof_header_t_def)
  have f1: "\<exists>p\<in>set [0x1000, 0x107C]. fits (hdr first_freed) 10 p"
    by (simp add: fits_def first_freed_def)
  have d: "malloc first_freed 10 = Some (0x1018, two_blocks)"
    by (simp add: malloc_def first_freed_def two_blocks_def get_free_block_def
        get_free_block_loop.simps sbrk_def sizeof_header_t_def Let_def)
  have i2: "heap_inv exhausted_block [0x1000]"
    by (simp add: heap_inv_def exhausted_block_def sizeof_header_t_def)
  have f2: "\<forall>p\<in>set [0x1000]. \<not> fits (hdr exhausted_block) 200 p"
    by (simp add: fits_def exhausted_block_def)
  have r2: "fst (sbrk exhausted_block (sizeof_header_t + 200)) = - 1"
    by (simp add: sbrk_def exhausted_block_def sizeof_header_t_def)
  have i3: "heap_inv one_block [0x1000]"
    by (simp add: heap_inv_def one_block_def sizeof_header_t_def)
  have f3: "\<forall>p\<in>set [0x1000]. \<not> fits (hdr one_block) 1 p"
    by (simp add: fits_def one_block_def)
  have r3: "fst (sbrk one_block (sizeof_header_t + 1)) \<noteq> - 1"
    by (simp add: sbrk_def one_block_def sizeof_header_t_def)
  have z3: "uint (1 :: size_t) + 24 < 2 ^ 63" by simp
  have e: "appended one_block 1 = two_blocks"
    by (simp add: appended_def one_block_def two_blocks_def sizeof_header_t_def)
  have n1: "(10 :: size_t) \<noteq> 0" and n2: "(200 :: size_t) \<noteq> 0" and n3: "(1 :: size_t) \<noteq> 0"
    by simp_all
  note t1 = malloc_first_fit_or_grow [OF i1 n1, THEN conjunct1, THEN mp, OF f1]
  note t2 = malloc_first_fit_or_grow [OF i2 n2, THEN conjunct2, THEN conjunct1, THEN mp,
      OF conjI [OF f2 r2]]
  note t3 = malloc_first_fit_or_grow [OF i3 n3, THEN conjunct2, THEN conjunct2, THEN mp,
      OF conjI [OF f3 conjI [OF r3 z3]]]
  from t1 d t2 t3 e show ?thesis by (intro conjI) simp_all
qed

theorem malloc_refused_returns_null:
  "get_free_block exhausted_heap 8 = Some 0 \<and>
   malloc exhausted_heap 8 = Some (0, exhausted_heap) \<and>
   tail exhausted_heap = 0"
  by (simp add: malloc_def exhausted_heap_def get_free_block_def
      get_free_block_loop.simps sbrk_def sizeof_header_t_def Let_def)

text \<open>
  C2. In a well-formed heap, for a block \<open>p\<close> of the chain whose payload ends at the
  break: \<open>free\<close> returns, and afterwards the break is lower by exactly
  \<^verbatim>\<open>sizeof(header_t)\<close> plus the stored size, which is the address of the block's header
  (the break at which \<open>malloc\<close> created the block). If the block was the only one,
  \<open>head\<close> and \<open>tail\<close> are both \<^verbatim>\<open>NULL\<close>; otherwise the node whose \<open>next\<close> pointed to
  the old tail is the new tail, with \<open>next\<close> set to \<^verbatim>\<open>NULL\<close>, and \<open>head\<close> is unchanged.
  The chain is the old one without its last block.
\<close>

theorem free_trailing_block:
  assumes "heap_inv s ps" and "p \<in> set ps"
    and "p + sizeof_header_t + s_size (hdr s p) = brk s"
  shows "\<exists>s'. free s (p + sizeof_header_t) = Some s' \<and>
           uint (brk s') = uint (brk s) - (24 + uint (s_size (hdr s p))) \<and>
           brk s' = p \<and> tail s = p \<and>
           (ps = [p] \<longrightarrow> head s' = 0 \<and> tail s' = 0) \<and>
           (ps \<noteq> [p] \<longrightarrow>
              (\<exists>q\<in>set ps. s_next (hdr s q) = tail s \<and> tail s' = q \<and>
                 s_next (hdr s' q) = 0 \<and> head s' = head s)) \<and>
           heap_inv s' (butlast ps)"
proof -
  have l: "p = last ps" using heap_inv_trailing_iff[OF assms(1,2)] assms(3) by simp
  from assms(2) have ne: "ps \<noteq> []" by auto
  with assms(1) l have t: "tail s = p" by (simp add: heap_inv_def)
  have "uint (p + sizeof_header_t + s_size (hdr s p)) = uint (brk s)" using assms(3) by simp
  then have u: "uint p = uint (brk s) - (24 + uint (s_size (hdr s p)))"
    using heap_inv_block(3)[OF assms(1,2)] by linarith
  from list_last_cases[OF ne] show ?thesis
  proof
    assume "ps = [last ps]"
    with l have ps: "ps = [p]" by simp
    with assms(1) have i: "heap_inv s [p]" by simp
    from free_single[OF i] heap_inv_free_single[OF i] ps u t show ?thesis by simp
  next
    assume "\<exists>qs q. ps = qs @ [q, last ps]"
    then obtain qs q where ps: "ps = qs @ [q, p]" using l by auto
    with assms(1) have i: "heap_inv s (qs @ [q, p])" by simp
    then have c: "chain (hdr s) (head s) (qs @ [q, p])" by (simp add: heap_inv_def)
    from chain_suffix[of "hdr s" "head s" qs q "[p]"] c have "s_next (hdr s q) = p" by simp
    moreover have "q \<in> set ps" using ps by simp
    moreover have "ps \<noteq> [p]" using ps by simp
    ultimately show ?thesis
      using free_last[OF i] heap_inv_free_last[OF i] ps u t by (auto simp add: butlast_append)
  qed
qed

theorem free_trailing_block_witness:
  "(\<exists>s'. free two_blocks (0x107C + sizeof_header_t) = Some s' \<and>
      uint (brk s') = uint (brk two_blocks) - (24 + uint (s_size (hdr two_blocks 0x107C))) \<and>
      brk s' = 0x107C \<and> tail s' = 0x1000 \<and> s_next (hdr s' 0x1000) = 0 \<and>
      head s' = 0x1000 \<and> heap_inv s' [0x1000]) \<and>
   (\<exists>s'. free one_block (0x1000 + sizeof_header_t) = Some s' \<and>
      brk s' = 0x1000 \<and> head s' = 0 \<and> tail s' = 0) \<and>
   s_next (hdr two_blocks 0x1000) = tail two_blocks"
proof -
  have i2: "heap_inv two_blocks [0x1000, 0x107C]"
    by (simp add: heap_inv_def two_blocks_def sizeof_header_t_def)
  have m2: "(0x107C :: ptr) \<in> set [0x1000, 0x107C]" by simp
  have e2: "0x107C + sizeof_header_t + s_size (hdr two_blocks 0x107C) = brk two_blocks"
    by (simp add: two_blocks_def sizeof_header_t_def)
  have i1: "heap_inv one_block [0x1000]"
    by (simp add: heap_inv_def one_block_def sizeof_header_t_def)
  have m1: "(0x1000 :: ptr) \<in> set [0x1000]" by simp
  have e1: "0x1000 + sizeof_header_t + s_size (hdr one_block 0x1000) = brk one_block"
    by (simp add: one_block_def sizeof_header_t_def)
  have n: "s_next (hdr two_blocks 0x107C) \<noteq> tail two_blocks" "tail two_blocks = 0x107C"
    "s_next (hdr two_blocks 0x1000) = tail two_blocks"
    by (simp_all add: two_blocks_def)
  from free_trailing_block [OF i2 m2 e2] obtain s' where
    "free two_blocks (0x107C + sizeof_header_t) = Some s'"
    "uint (brk s') = uint (brk two_blocks) - (24 + uint (s_size (hdr two_blocks 0x107C)))"
    "brk s' = 0x107C" "heap_inv s' (butlast [0x1000, 0x107C])"
    "\<exists>q\<in>set [0x1000, 0x107C]. s_next (hdr two_blocks q) = tail two_blocks \<and> tail s' = q \<and>
                 s_next (hdr s' q) = 0 \<and> head s' = head two_blocks"
    by auto
  moreover from this(5) n have "tail s' = 0x1000 \<and> s_next (hdr s' 0x1000) = 0 \<and> head s' = 0x1000"
    by (auto simp add: two_blocks_def)
  ultimately have a: "\<exists>s'. free two_blocks (0x107C + sizeof_header_t) = Some s' \<and>
      uint (brk s') = uint (brk two_blocks) - (24 + uint (s_size (hdr two_blocks 0x107C))) \<and>
      brk s' = 0x107C \<and> tail s' = 0x1000 \<and> s_next (hdr s' 0x1000) = 0 \<and>
      head s' = 0x1000 \<and> heap_inv s' [0x1000]"
    by simp
  from free_trailing_block [OF i1 m1 e1]
  have b: "\<exists>s'. free one_block (0x1000 + sizeof_header_t) = Some s' \<and>
      brk s' = 0x1000 \<and> head s' = 0 \<and> tail s' = 0"
    by auto
  from a b n(3) show ?thesis by blast
qed

text \<open>
  C8. Chain integrity is not preserved by every \<open>malloc\<close>. Starting from a heap with
  one live block, \<^verbatim>\<open>malloc(SIZE_MAX - 23)\<close> computes
  \<^verbatim>\<open>total_size = sizeof(header_t) + size = 0\<close>, so \<^verbatim>\<open>sbrk(0)\<close> succeeds without moving
  the break and a header is appended at the break; the following \<^verbatim>\<open>malloc(8)\<close> gets the
  same address from \<^verbatim>\<open>sbrk\<close>, which now is \<open>tail\<close>, and \<^verbatim>\<open>tail->s.next = header\<close>
  links the tail to itself. Both calls return the same payload address, and no list of
  headers runs from \<open>head\<close> to \<^verbatim>\<open>NULL\<close> any more. \<open>calloc\<close> checks its product for
  overflow; \<open>malloc\<close> does not check this sum. For requests whose sum stays below
  \<open>2 ^ 63\<close>, and for \<open>free\<close> and \<open>realloc\<close> of blocks of the chain, the invariants are
  preserved (\<open>malloc_inv\<close>, \<open>calloc_inv\<close>, \<open>realloc_inv\<close>, \<open>free_inv\<close>), and they
  give chain integrity (\<open>heap_inv_integrity\<close>).
\<close>

theorem malloc_wrapped_request_breaks_chain:
  "chain_integrity one_block \<and>
   malloc one_block 0xFFFFFFFFFFFFFFE8 = Some (0x1094, appended one_block 0xFFFFFFFFFFFFFFE8) \<and>
   malloc (appended one_block 0xFFFFFFFFFFFFFFE8) 8 =
     Some (0x1094, appended (appended one_block 0xFFFFFFFFFFFFFFE8) 8) \<and>
   tail (appended (appended one_block 0xFFFFFFFFFFFFFFE8) 8) = 0x107C \<and>
   s_next (hdr (appended (appended one_block 0xFFFFFFFFFFFFFFE8) 8) 0x107C) = 0x107C \<and>
   \<not> chain_integrity (appended (appended one_block 0xFFFFFFFFFFFFFFE8) 8)"
proof -
  let ?s1 = "appended one_block 0xFFFFFFFFFFFFFFE8"
  let ?s2 = "appended ?s1 8"
  have i: "chain_integrity one_block"
  proof -
    have "chain (hdr one_block) (head one_block) [0x1000] \<and> distinct [0x1000 :: ptr] \<and>
          tail one_block = (if [0x1000 :: ptr] = [] then 0 else last [0x1000])"
      by (simp add: one_block_def)
    then show ?thesis unfolding chain_integrity_def by blast
  qed
  have a: "malloc one_block 0xFFFFFFFFFFFFFFE8 = Some (0x1094, ?s1)"
    by (simp add: malloc_def appended_def one_block_def get_free_block_def
        get_free_block_loop.simps sbrk_def sizeof_header_t_def Let_def)
  have b: "malloc ?s1 8 = Some (0x1094, ?s2)"
    by (simp add: malloc_def appended_def one_block_def get_free_block_def
        get_free_block_loop.simps sbrk_def sizeof_header_t_def Let_def)
  have t: "tail ?s2 = 0x107C" by (simp add: appended_def one_block_def sizeof_header_t_def)
  have n: "s_next (hdr ?s2 0x107C) = 0x107C"
    by (simp add: appended_def one_block_def sizeof_header_t_def)
  have hd: "head ?s2 = 0x1000" "s_next (hdr ?s2 0x1000) = 0x107C"
    by (simp_all add: appended_def one_block_def sizeof_header_t_def)
  have "\<not> chain_integrity ?s2"
  proof
    assume "chain_integrity ?s2"
    then obtain ps where c: "chain (hdr ?s2) (head ?s2) ps" unfolding chain_integrity_def by blast
    with hd obtain qs where q: "ps = 0x1000 # qs" "chain (hdr ?s2) 0x107C qs"
      by (cases ps) auto
    then obtain rs where r: "qs = 0x107C # rs" "chain (hdr ?s2) (s_next (hdr ?s2 0x107C)) rs"
      by (cases qs) auto
    with n have "chain (hdr ?s2) (s_next (hdr ?s2 0x107C)) (0x107C # rs)"
      using q(2) by simp
    from chain_next_notin[OF this] show False by simp
  qed
  with i a b t n show ?thesis by simp
qed

text \<open>
  C3. \<open>calloc\<close> tests its product for overflow, but not the sum \<open>malloc\<close> forms from it.
  For \<^verbatim>\<open>calloc(0xFFFFFFFF, 0x100000001)\<close> the product is \<^verbatim>\<open>SIZE_MAX\<close>: it fits 64 bits,
  both arguments are non-zero and the test \<^verbatim>\<open>nsize != size / num\<close> is false, so
  \<^verbatim>\<open>malloc(SIZE_MAX)\<close> is called. There \<^verbatim>\<open>total_size = sizeof(header_t) + size\<close> wraps
  to 23: on the empty heap \<^verbatim>\<open>sbrk\<close> moves the break by 23 bytes, less than one header,
  and the payload address \<open>malloc\<close> returns lies above the new break. \<open>calloc\<close> then runs
  \<^verbatim>\<open>memset(block, 0, SIZE_MAX)\<close> from that address, which no heap holds; the specification
  promises \<^verbatim>\<open>NULL\<close> or a block of \<^verbatim>\<open>num * nsize\<close> zero bytes. For products whose total
  size does not wrap, \<open>calloc_refuses\<close> and \<open>calloc_zeroes\<close> prove the property.
\<close>

theorem calloc_total_size_wraps:
  "(0xFFFFFFFF :: size_t) \<noteq> 0 \<and> (0x100000001 :: size_t) \<noteq> 0 \<and>
   (0xFFFFFFFF :: size_t) * 0x100000001 = 0xFFFFFFFFFFFFFFFF \<and>
   unat (0xFFFFFFFF :: size_t) * unat (0x100000001 :: size_t) < 2 ^ 64 \<and>
   (0x100000001 :: size_t) = (0xFFFFFFFF * 0x100000001) div 0xFFFFFFFF \<and>
   sizeof_header_t + 0xFFFFFFFFFFFFFFFF = 23 \<and>
   (\<exists>s1. malloc empty_heap (0xFFFFFFFF * 0x100000001) = Some (0x1018, s1) \<and>
         brk s1 = 0x1017 \<and> head s1 = 0x1000 \<and> s_size (hdr s1 0x1000) = 0xFFFFFFFFFFFFFFFF)"
  by (simp add: malloc_def empty_heap_def get_free_block_def get_free_block_loop.simps
      sbrk_def sizeof_header_t_def Let_def)

text \<open>
  C7. \<open>realloc\<close> to a size for which \<^verbatim>\<open>sizeof(header_t) + size\<close> wraps does not do what
  the specification says. On the heap with one live block of 100 bytes,
  \<^verbatim>\<open>realloc(p, SIZE_MAX - 23)\<close> gets a non-null block from \<open>malloc\<close>, whose header was
  linked at the unmoved break (\<^verbatim>\<open>total_size = 0\<close>). The \<open>free\<close> of the old capability
  then finds the old payload ending at the break, takes the tail-release branch, unlinks
  the new header (it is \<open>tail\<close>) and gives the old block's bytes back to the system:
  after the call \<open>head\<close>, \<open>tail\<close> and the break all are the old header, which is still
  linked and marked in use, and the address returned lies above the break. The specification
  promises that the old capability is deallocated and the new one holds the content.
  For sizes that do not wrap, \<open>realloc_moves_contents\<close> proves the property.
\<close>

theorem realloc_wrapped_request_releases_live_block:
  "s_size (hdr written_block (0x1018 - sizeof_header_t)) < 0xFFFFFFFFFFFFFFE8 \<and>
   (\<exists>s1. malloc written_block 0xFFFFFFFFFFFFFFE8 = Some (0x1094, s1) \<and> brk s1 = 0x107C) \<and>
   (\<exists>s3. realloc written_block 0x1018 0xFFFFFFFFFFFFFFE8 = Some (0x1094, s3) \<and>
      brk s3 = 0x1000 \<and> head s3 = 0x1000 \<and> tail s3 = 0x1000 \<and>
      s_is_free (hdr s3 0x1000) = 0 \<and> s_next (hdr s3 0x1000) = 0)"
  by (simp add: realloc_def malloc_def free_def written_block_def one_block_def
      get_free_block_def get_free_block_loop.simps free_loop.simps sbrk_def
      sizeof_header_t_def Let_def)


text \<open>
  C10. \<^verbatim>\<open>realloc(p, 0)\<close> returns \<^verbatim>\<open>NULL\<close> and leaves the block as it is, linked and in
  use (\<open>realloc_zero\<close>); but a later allocation can reuse its memory. On the heap with
  one live block \<open>p\<close> of 100 bytes (payload \<open>0x1018\<close> to \<open>0x107B\<close>), after
  \<^verbatim>\<open>realloc(p, 0)\<close> the call \<^verbatim>\<open>malloc(SIZE_MAX - 31)\<close> computes \<^verbatim>\<open>total_size = -8\<close> as
  the signed increment, so \<^verbatim>\<open>sbrk\<close> lowers the break to \<open>0x1074\<close>, into the payload of
  \<open>p\<close>; the following \<^verbatim>\<open>malloc(8)\<close> places its header at \<open>0x1074\<close>. The specification says the
  memory of \<open>p\<close> is never reused by a later allocation. For sizes that do not wrap,
  \<open>malloc_spares_live_block\<close> proves that, call after call.
\<close>

theorem realloc_zero_block_reused_after_wrap:
  "realloc one_block 0x1018 0 = Some (0, one_block) \<and>
   s_is_free (hdr one_block 0x1000) = 0 \<and> s_size (hdr one_block 0x1000) = 100 \<and>
   (\<exists>s1. malloc one_block 0xFFFFFFFFFFFFFFE0 = Some (0x1094, s1) \<and> brk s1 = 0x1074 \<and>
      (\<exists>s2. malloc s1 8 = Some (0x108C, s2) \<and> tail s2 = 0x1074 \<and> brk s2 = 0x1094 \<and>
            s_is_free (hdr s2 0x1000) = 0))"
  by (simp add: realloc_def malloc_def one_block_def
      get_free_block_def get_free_block_loop.simps sbrk_def
      sizeof_header_t_def Let_def)

end
